theory Spec2Isabelle
  imports Main
begin

section \<open>Strings\<close>

text \<open>
  Python strings are modelled as \<^typ>\<open>string\<close>. The helpers below are the string
  methods the module \<^verbatim>\<open>command.py\<close> calls.
\<close>

text \<open>\<^verbatim>\<open>str.isspace\<close> on one character (code points below 256).\<close>

definition is_space :: "char \<Rightarrow> bool" where
  "is_space c =
     (c = CHR 0x20 \<or> c = CHR 0x09 \<or> c = CHR 0x0A \<or> c = CHR 0x0B \<or> c = CHR 0x0C \<or>
      c = CHR 0x0D \<or> c = CHR 0x1C \<or> c = CHR 0x1D \<or> c = CHR 0x1E \<or> c = CHR 0x1F \<or>
      c = CHR 0x85 \<or> c = CHR 0xA0)"

text \<open>
  \<^verbatim>\<open>s.split()\<close>: the maximal runs of characters that are not whitespace; no empty
  string is ever produced, and a blank line gives the empty list.
\<close>

fun split_ws :: "string \<Rightarrow> string list" where
  "split_ws [] = []"
| "split_ws (c # cs) =
     (if is_space c then split_ws cs
      else if cs = [] \<or> is_space (hd cs) then [c] # split_ws cs
      else (case split_ws cs of [] \<Rightarrow> [[c]] | w # ws \<Rightarrow> (c # w) # ws))"

text \<open>
  \<^verbatim>\<open>s.split(sep)\<close> for a separator of one character: the pieces between the
  separators, empty pieces included; the result is never the empty list.
\<close>

fun split_on :: "char \<Rightarrow> string \<Rightarrow> string list" where
  "split_on sep [] = [[]]"
| "split_on sep (c # cs) =
     (if c = sep then [] # split_on sep cs
      else (case split_on sep cs of [] \<Rightarrow> [[c]] | w # ws \<Rightarrow> (c # w) # ws))"

text \<open>\<^verbatim>\<open>sep.join(xs)\<close>.\<close>

fun join :: "string \<Rightarrow> string list \<Rightarrow> string" where
  "join sep [] = []"
| "join sep [x] = x"
| "join sep (x # y # ys) = x @ sep @ join sep (y # ys)"

text \<open>The slice \<^verbatim>\<open>s[1:-1]\<close>; it is empty for a string of fewer than two characters.\<close>

definition strip_ends :: "string \<Rightarrow> string" where
  "strip_ends s = butlast (tl s)"

text \<open>A string between apostrophes, as the f-strings of the error messages write it.\<close>

definition quoted :: "string \<Rightarrow> string" where
  "quoted s = CHR 0x27 # s @ [CHR 0x27]"

definition newline :: string where
  "newline = [CHR 0x0A]"

section \<open>Parts and arguments\<close>

text \<open>
  Class \<^verbatim>\<open>_Argument\<close>: a string with the attribute \<^verbatim>\<open>name\<close>
  (\<^verbatim>\<open>None\<close> for a value that never came from a free option).
\<close>

datatype argument = Argument (arg_value: string) (arg_name: "string option")

text \<open>
  Class \<^verbatim>\<open>_Part\<close>: \<open>part_str\<close> is the attribute \<^verbatim>\<open>_str\<close>, the text the part
  was compiled from.
\<close>

record part =
  part_str :: string
  mandatory :: bool
  free_name :: string
  options :: "string list"

text \<open>The subclasses of \<^verbatim>\<open>_ParsingError\<close>, with the attributes each one stores.\<close>

datatype error_class =
    InvalidOption part string
  | MissingMandatory part
  | Redundant string
  | InvalidSyntax
  | InvalidArgValue argument string
  | InvalidCommandValue argument string

datatype parsing_error =
  ParsingError (err_class: error_class) (message: string) (badness: int)

definition InvalidOption_init :: "part \<Rightarrow> string \<Rightarrow> parsing_error" where
  "InvalidOption_init p v =
     ParsingError (InvalidOption p v)
       (''Invalid option '' @ quoted v @ '', must be one of '' @ quoted (part_str p)) 3"

definition MissingMandatory_init :: "part \<Rightarrow> parsing_error" where
  "MissingMandatory_init p =
     ParsingError (MissingMandatory p)
       (''Missing mandatory argument '' @ quoted (part_str p)) 4"

definition Redundant_init :: "string \<Rightarrow> parsing_error" where
  "Redundant_init v =
     ParsingError (Redundant v) (''Redundant argument '' @ quoted v) 4"

text \<open>
  \<^verbatim>\<open>_Part._enclosed(string, enclose)\<close>, with the two characters of
  \<^verbatim>\<open>enclose\<close> given one by one. The empty string is not enclosed.
\<close>

definition Part_enclosed :: "string \<Rightarrow> char \<Rightarrow> char \<Rightarrow> bool" where
  "Part_enclosed s l r = (s \<noteq> [] \<and> hd s = l \<and> last s = r)"

text \<open>
  The list comprehension of \<^verbatim>\<open>_Part.__init__\<close>: it walks the alternatives with
  the attribute \<^verbatim>\<open>free_name\<close> as running state. An alternative that is not enclosed
  in \<^verbatim>\<open><>\<close> is kept as an option. An enclosed one is never kept; while
  \<^verbatim>\<open>free_name\<close> is still empty, its inner text is stored there by
  \<^verbatim>\<open>setattr\<close>. The result is the options kept and the final \<^verbatim>\<open>free_name\<close>.
\<close>

fun Part_scan :: "string list \<Rightarrow> string \<Rightarrow> string list \<times> string" where
  "Part_scan [] fn = ([], fn)"
| "Part_scan (opt # rest) fn =
     (if \<not> Part_enclosed opt (CHR ''<'') (CHR ''>'') then
        (case Part_scan rest fn of (os, fn') \<Rightarrow> (opt # os, fn'))
      else if fn = [] then Part_scan rest (strip_ends opt)
      else Part_scan rest fn)"

text \<open>\<^verbatim>\<open>_Part.__init__\<close>.\<close>

definition Part_init :: "string \<Rightarrow> part" where
  "Part_init s =
     (let m = \<not> Part_enclosed s (CHR ''['') (CHR '']'');
          body = (if \<not> m then strip_ends s else s);
          scanned = Part_scan (split_on (CHR ''|'') body) []
      in \<lparr>part_str = s, mandatory = m, free_name = snd scanned, options = fst scanned\<rparr>)"

text \<open>
  \<^verbatim>\<open>_Part.match\<close>: \<open>Inr\<close> the argument returned, \<open>Inl\<close> the
  \<^verbatim>\<open>_InvalidOption\<close> raised.
\<close>

definition Part_match :: "part \<Rightarrow> string \<Rightarrow> parsing_error + argument" where
  "Part_match p user_part =
     (if user_part \<in> set (options p) then Inr (Argument user_part None)
      else if free_name p \<noteq> [] \<and> user_part \<noteq> [] then
        Inr (Argument user_part (Some (free_name p)))
      else if \<not> mandatory p then Inr (Argument [] None)
      else Inl (InvalidOption_init p user_part))"

section \<open>The command wrapper\<close>

text \<open>
  A handler is the bound method behind a command. It is called with the resolved
  arguments, may change the application it belongs to (the state \<open>'s\<close>), and either
  returns or raises a \<^verbatim>\<open>_ParsingError\<close>. A handler that raises anything else is
  outside of what \<^verbatim>\<open>_Wrapper.__call__\<close> catches and is not modelled, nor is one
  that reaches into the wrappers or calls \<^verbatim>\<open>resolve\<close> itself.
\<close>

datatype handler_outcome = Returned | HandlerRaised parsing_error

type_synonym 's handler = "'s \<Rightarrow> argument list \<Rightarrow> handler_outcome \<times> 's"

text \<open>
  Class \<^verbatim>\<open>_Wrapper\<close>: the attributes \<^verbatim>\<open>_command\<close>, \<^verbatim>\<open>_args\<close>,
  \<^verbatim>\<open>_handler\<close>, \<^verbatim>\<open>_syntax\<close> (here \<open>wsyntax\<close>),
  \<^verbatim>\<open>_first_exception\<close> and \<^verbatim>\<open>_badness\<close> (here \<open>wbadness\<close>). The
  attributes that only the help listing reads (\<^verbatim>\<open>_description\<close>, \<^verbatim>\<open>_position\<close>, \<^verbatim>\<open>_ignore\<close>,
  \<^verbatim>\<open>_tab\<close>) are left out.
\<close>

record 's wrapper =
  command :: part
  args :: "part list"
  handler :: "'s handler"
  wsyntax :: string
  first_exception :: "parsing_error option"
  wbadness :: int

definition INITIAL_BADNESS :: int where
  "INITIAL_BADNESS = 10000"

text \<open>
  \<^verbatim>\<open>Command.__init__\<close> followed by \<^verbatim>\<open>_Descriptor.__get__\<close>: the wrapper of a
  syntax string and a handler, as \<^verbatim>\<open>_Wrapper.__init__\<close> leaves it. Unpacking
  \<^verbatim>\<open>command, *args = syntax.split()\<close> raises \<^verbatim>\<open>ValueError\<close> on the empty
  list, and the command is then compiled from the empty string.
\<close>

definition Command_parts :: "string \<Rightarrow> part \<times> part list" where
  "Command_parts syn =
     (case split_ws syn of
        [] \<Rightarrow> (Part_init [], [])
      | c # as \<Rightarrow> (Part_init c, map Part_init as))"

definition Command_str :: "part \<times> part list \<Rightarrow> string" where
  "Command_str ps = part_str (fst ps) @ concat (map (\<lambda>a. CHR 0x20 # part_str a) (snd ps))"

definition Wrapper_init :: "string \<Rightarrow> 's handler \<Rightarrow> 's wrapper" where
  "Wrapper_init syn h =
     \<lparr>command = fst (Command_parts syn), args = snd (Command_parts syn), handler = h,
      wsyntax = Command_str (Command_parts syn), first_exception = None,
      wbadness = INITIAL_BADNESS\<rparr>"

text \<open>
  The state of one run of \<^verbatim>\<open>_Wrapper.__call__\<close>: the two attributes of
  \<^verbatim>\<open>self\<close> that the call assigns (\<open>fr_first_exception\<close>, \<open>fr_badness\<close>) and the
  local variables \<^verbatim>\<open>resolved_args\<close>, \<^verbatim>\<open>user_arg\<close> and
  \<^verbatim>\<open>user_args_index\<close>. The field \<open>logged\<close> is a history variable that the source
  does not have: every exception handed to \<^verbatim>\<open>_log_exception\<close>, in order.
\<close>

record frame =
  fr_first_exception :: "parsing_error option"
  fr_badness :: int
  resolved_args :: "argument list"
  user_arg :: "string option"
  user_args_index :: nat
  logged :: "parsing_error list"

text \<open>
  \<^verbatim>\<open>_Wrapper._log_exception\<close>: the first exception is stored; a later one only
  raises the stored exception's badness to the maximum of the two.
\<close>

definition Wrapper_log_exception :: "frame \<Rightarrow> parsing_error \<Rightarrow> frame" where
  "Wrapper_log_exception fr e =
     (case fr_first_exception fr of
        None \<Rightarrow> fr\<lparr>fr_first_exception := Some e, logged := logged fr @ [e]\<rparr>
      | Some f \<Rightarrow>
          fr\<lparr>fr_first_exception :=
               Some (ParsingError (err_class f) (message f) (max (badness f) (badness e))),
             logged := logged fr @ [e]\<rparr>)"

text \<open>
  The first statement of the loop body: a token is pulled into \<^verbatim>\<open>user_arg\<close> only
  when that variable is \<^verbatim>\<open>None\<close> and a token is left.
\<close>

definition pull :: "string list \<Rightarrow> frame \<Rightarrow> frame" where
  "pull user_args fr =
     (if user_arg fr = None \<and> user_args_index fr < length user_args then
        fr\<lparr>user_arg := Some (user_args ! user_args_index fr),
           user_args_index := user_args_index fr + 1\<rparr>
      else fr)"

text \<open>The expression \<^verbatim>\<open>user_arg or ''\<close>.\<close>

definition or_empty :: "string option \<Rightarrow> string" where
  "or_empty u = (case u of None \<Rightarrow> [] | Some t \<Rightarrow> t)"

text \<open>
  The loop \<^verbatim>\<open>for part in self._args\<close>. \<^verbatim>\<open>break\<close> ends the recursion; the
  appended argument is truthy when its string is not empty.
\<close>

fun walk :: "part list \<Rightarrow> string list \<Rightarrow> frame \<Rightarrow> frame" where
  "walk [] user_args fr = fr"
| "walk (p # ps) user_args fr =
     (let fr1 = pull user_args fr in
      if user_arg fr1 = None \<and> mandatory p then
        Wrapper_log_exception fr1 (MissingMandatory_init p)
      else
        (case Part_match p (or_empty (user_arg fr1)) of
           Inl e \<Rightarrow> walk ps user_args ((Wrapper_log_exception fr1 e)\<lparr>user_arg := None\<rparr>)
         | Inr a \<Rightarrow>
             (if arg_value a \<noteq> [] then
                walk ps user_args
                  (fr1\<lparr>resolved_args := resolved_args fr1 @ [a], user_arg := None,
                       fr_badness := fr_badness fr1 - 1\<rparr>)
              else walk ps user_args (fr1\<lparr>resolved_args := resolved_args fr1 @ [a]\<rparr>))))"

text \<open>The two tests after the loop that report a redundant argument.\<close>

definition after_walk :: "string list \<Rightarrow> frame \<Rightarrow> frame" where
  "after_walk user_args fr =
     (case user_arg fr of
        Some t \<Rightarrow> Wrapper_log_exception fr (Redundant_init t)
      | None \<Rightarrow>
          (if user_args_index fr < length user_args then
             Wrapper_log_exception fr (Redundant_init (user_args ! user_args_index fr))
           else fr))"

text \<open>
  The frame after the command part has matched: \<^verbatim>\<open>_first_exception\<close> was set to
  \<^verbatim>\<open>None\<close> on entry, \<^verbatim>\<open>_badness\<close> is what the last call left, the command's
  own value seeds \<^verbatim>\<open>resolved_args\<close> when the part has a free option or is optional,
  and a command typed as one of the hard-coded options lowers the badness by 3.
\<close>

definition seed :: "'s wrapper \<Rightarrow> string \<Rightarrow> argument \<Rightarrow> frame" where
  "seed w user_command resolved_command =
     \<lparr>fr_first_exception = None,
      fr_badness =
        (if user_command \<in> set (options (command w)) then wbadness w - 3 else wbadness w),
      resolved_args =
        (if free_name (command w) \<noteq> [] \<or> \<not> mandatory (command w) then [resolved_command]
         else []),
      user_arg = None, user_args_index = 0, logged = []\<rparr>"

text \<open>The frame when the handler is reached: after the loop and the redundancy tests.\<close>

definition parse :: "'s wrapper \<Rightarrow> string \<Rightarrow> string list \<Rightarrow> argument \<Rightarrow> frame" where
  "parse w user_command user_args resolved_command =
     after_walk user_args (walk (args w) user_args (seed w user_command resolved_command))"

text \<open>
  What one call of the wrapper gives back: \<open>Matched\<close> is the return value
  \<^verbatim>\<open>True\<close>, \<open>NotCandidate\<close> is \<^verbatim>\<open>False\<close>, \<open>Raised\<close> carries the exception
  raised. \<open>self_after\<close> is the wrapper object after the call, \<open>app_after\<close> the
  application state. Two history fields: \<open>invoked\<close> is the argument list the handler
  was called with and how that call ended, if the handler was called, and
  \<open>errors_logged\<close> is the frame's \<open>logged\<close>.
\<close>

datatype call_result = Matched | NotCandidate | Raised parsing_error

record 's call_out =
  result :: call_result
  self_after :: "'s wrapper"
  app_after :: 's
  invoked :: "(argument list \<times> handler_outcome) option"
  errors_logged :: "parsing_error list"

text \<open>
  The end of \<^verbatim>\<open>_Wrapper.__call__\<close>: with an exception stored, the badness counter is
  added to the stored exception's badness and the exception is raised; otherwise the
  call returns \<^verbatim>\<open>True\<close>.
\<close>

definition finish ::
  "'s wrapper \<Rightarrow> frame \<Rightarrow> 's \<Rightarrow> (argument list \<times> handler_outcome) option \<Rightarrow> 's call_out"
  where
  "finish w fr a called =
     (case fr_first_exception fr of
        Some f \<Rightarrow>
          (let e = ParsingError (err_class f) (message f) (badness f + fr_badness fr) in
           \<lparr>result = Raised e,
            self_after = w\<lparr>first_exception := Some e, wbadness := fr_badness fr\<rparr>,
            app_after = a, invoked = called, errors_logged = logged fr\<rparr>)
      | None \<Rightarrow>
          \<lparr>result = Matched,
           self_after = w\<lparr>first_exception := None, wbadness := fr_badness fr\<rparr>,
           app_after = a, invoked = called, errors_logged = logged fr\<rparr>)"

text \<open>
  \<^verbatim>\<open>_Wrapper.__call__(user_command, *user_args)\<close> on the application state \<open>a\<close>.
  The handler runs only when nothing was logged before; an exception it raises is
  logged like the others.
\<close>

definition Wrapper_call :: "'s wrapper \<Rightarrow> 's \<Rightarrow> string \<Rightarrow> string list \<Rightarrow> 's call_out" where
  "Wrapper_call w a user_command user_args =
     (case Part_match (command w) user_command of
        Inl e \<Rightarrow>
          \<lparr>result = NotCandidate, self_after = w\<lparr>first_exception := None\<rparr>,
           app_after = a, invoked = None, errors_logged = []\<rparr>
      | Inr resolved_command \<Rightarrow>
          (let fr = parse w user_command user_args resolved_command in
           if fr_first_exception fr = None then
             (case handler w a (resolved_args fr) of
                (Returned, a') \<Rightarrow> finish w fr a' (Some (resolved_args fr, Returned))
              | (HandlerRaised e, a') \<Rightarrow>
                  finish w (Wrapper_log_exception fr e) a'
                    (Some (resolved_args fr, HandlerRaised e)))
           else finish w fr a None))"

section \<open>The dispatcher\<close>

text \<open>
  What a run leaves behind, in order: \<open>Print t\<close> is the text \<open>t\<close> written to the
  standard output by one call of \<^verbatim>\<open>print\<close>, \<open>Invoke i xs oc\<close> is a call of
  the handler of the \<open>i\<close>-th command of the list with the arguments \<open>xs\<close>, which
  ended as \<open>oc\<close> says (it returned, or it raised the exception given), and
  \<open>Fallback\<close> marks a recursive call of \<^verbatim>\<open>resolve\<close> on the input
  \<^verbatim>\<open>'help'\<close>.
\<close>

datatype event = Print string | Invoke nat "argument list" handler_outcome | Fallback

text \<open>
  The state \<^verbatim>\<open>resolve\<close> works on: the wrapper objects of \<^verbatim>\<open>command_list\<close>
  (distinct objects, as \<^verbatim>\<open>App.__init__\<close> builds them), the class attribute
  \<^verbatim>\<open>resolve._help_search\<close>, the application state, and the events so far.
\<close>

record 's world =
  command_list :: "'s wrapper list"
  help_search :: bool
  app :: 's
  out :: "event list"

text \<open>
  The loop \<^verbatim>\<open>for command_wrapper in command_list\<close> from the command at index
  \<open>i\<close> on. \<open>found\<close> tells that a wrapper returned \<^verbatim>\<open>True\<close> and
  \<^verbatim>\<open>resolve\<close> returned from inside the loop; \<open>wrappers_after\<close> are the wrapper
  objects after the loop, \<open>logged_exceptions\<close> the exceptions caught, in order.
\<close>

record 's loop_out =
  found :: bool
  wrappers_after :: "'s wrapper list"
  loop_app :: 's
  logged_exceptions :: "parsing_error list"
  events :: "event list"

definition invoke_event :: "nat \<Rightarrow> 's call_out \<Rightarrow> event list" where
  "invoke_event i r = (case invoked r of None \<Rightarrow> [] | Some (xs, oc) \<Rightarrow> [Invoke i xs oc])"

fun try_commands :: "'s wrapper list \<Rightarrow> nat \<Rightarrow> string list \<Rightarrow> 's \<Rightarrow> 's loop_out" where
  "try_commands [] i user_list a =
     \<lparr>found = False, wrappers_after = [], loop_app = a, logged_exceptions = [], events = []\<rparr>"
| "try_commands (cw # rest) i user_list a =
     (let r = Wrapper_call cw a (hd user_list) (tl user_list) in
      case result r of
        Matched \<Rightarrow>
          \<lparr>found = True, wrappers_after = self_after r # rest, loop_app = app_after r,
           logged_exceptions = [], events = invoke_event i r\<rparr>
      | NotCandidate \<Rightarrow>
          (let l = try_commands rest (Suc i) user_list (app_after r) in
           l\<lparr>wrappers_after := self_after r # wrappers_after l,
             events := invoke_event i r @ events l\<rparr>)
      | Raised e \<Rightarrow>
          (let l = try_commands rest (Suc i) user_list (app_after r) in
           l\<lparr>wrappers_after := self_after r # wrappers_after l,
             logged_exceptions := e # logged_exceptions l,
             events := invoke_event i r @ events l\<rparr>))"

text \<open>
  The loop of \<^verbatim>\<open>resolve._print_exceptions\<close> that removes repeated messages: a
  message is kept where it stands first; \<open>seen\<close> is the set \<^verbatim>\<open>messages\<close>.
\<close>

fun first_messages :: "string list \<Rightarrow> string list \<Rightarrow> string list" where
  "first_messages [] seen = []"
| "first_messages (m # ms) seen =
     (if m \<in> set seen then first_messages ms seen else m # first_messages ms (m # seen))"

text \<open>
  \<^verbatim>\<open>resolve._print_exceptions\<close>: the exceptions are sorted by badness
  (\<^verbatim>\<open>list.sort\<close> is stable, as \<^const>\<open>sort_key\<close> is), the messages are printed once
  each, joined by \<^verbatim>\<open>'\nor  '\<close> and ended by \<^verbatim>\<open>'.\n\n'\<close>.
\<close>

definition print_exceptions :: "parsing_error list \<Rightarrow> event list" where
  "print_exceptions exceptions =
     (let to_print = first_messages (map message (sort_key badness exceptions)) [] in
      (if length to_print > 1 then [Print ''    ''] else []) @
      [Print (join (newline @ ''or  '') to_print @ ''.'' @ newline @ newline)])"

definition no_help_found :: event where
  "no_help_found = Print (''No additional help found.'' @ newline)"

text \<open>The token list: \<^verbatim>\<open>user_input.split() or ['']\<close>.\<close>

definition user_list_of :: "string \<Rightarrow> string list" where
  "user_list_of user_input = (if split_ws user_input = [] then [[]] else split_ws user_input)"

text \<open>The world after the loop of \<^verbatim>\<open>resolve\<close> has run on it.\<close>

definition after_loop :: "'s world \<Rightarrow> 's loop_out \<Rightarrow> 's world" where
  "after_loop w l =
     w\<lparr>command_list := wrappers_after l, app := loop_app l, out := out w @ events l\<rparr>"

text \<open>
  \<^verbatim>\<open>resolve.__new__\<close>. The recursive calls are those of the source, on the input
  \<^verbatim>\<open>'help'\<close> with \<^verbatim>\<open>_help_search\<close> set, and \<^verbatim>\<open>_help_search\<close> is
  cleared after each.
\<close>

function resolve :: "'s world \<Rightarrow> string \<Rightarrow> 's world" where
  "resolve w user_input =
     (let user_list = user_list_of user_input;
          l = try_commands (command_list w) 0 user_list (app w);
          w1 = after_loop w l
      in if found l then w1
         else if logged_exceptions l \<noteq> [] then
           (if help_search w1 then w1\<lparr>out := out w1 @ [no_help_found]\<rparr>
            else
              (resolve
                 (w1\<lparr>out := out w1 @ print_exceptions (logged_exceptions l) @ [Fallback],
                     help_search := True\<rparr>)
                 ''help'')\<lparr>help_search := False\<rparr>)
         else if help_search w1 then w1\<lparr>out := out w1 @ [no_help_found]\<rparr>
         else
           (resolve
              (w1\<lparr>out :=
                    out w1 @
                    (if hd user_list \<noteq> [] then
                       [Print (''Unknown command '' @ hd user_list @ ''.'' @ newline),
                        Print newline]
                     else []) @
                    [Fallback],
                  help_search := True\<rparr>)
              ''help'')\<lparr>help_search := False\<rparr>)"
  by pat_completeness auto
termination
  by (relation "measure (\<lambda>(w, user_input). if help_search w then 0 else 1)")
    (auto simp: after_loop_def)

declare resolve.simps [simp del]

section \<open>Example commands\<close>

text \<open>
  Handlers of an application without state: one that returns, and one that rejects
  its input with the exception \<open>e\<close>.
\<close>

definition accepting :: "unit handler" where
  "accepting = (\<lambda>s xs. (Returned, s))"

definition rejecting :: "parsing_error \<Rightarrow> unit handler" where
  "rejecting e = (\<lambda>s xs. (HandlerRaised e, s))"

text \<open>Worlds of an application without state, with no output yet.\<close>

definition lonely :: "unit world" where
  "lonely =
     \<lparr>command_list = [Wrapper_init ''set <k>'' accepting], help_search = False, app = (),
      out = []\<rparr>"

definition two_sets :: "unit world" where
  "two_sets =
     \<lparr>command_list = [Wrapper_init ''set <k> <v>'' accepting, Wrapper_init ''set <k>'' accepting],
      help_search = False, app = (), out = []\<rparr>"


section \<open>Notions used in the statements\<close>

text \<open>
  The representative of the exceptions logged in one call, as the rule reads: the
  first exception logged, with the largest badness among all of them; none when
  nothing was logged.
\<close>

definition representative :: "parsing_error list \<Rightarrow> parsing_error option" where
  "representative es =
     (case es of
        [] \<Rightarrow> None
      | e # _ \<Rightarrow> Some (ParsingError (err_class e) (message e) (Max (badness ` set es))))"

text \<open>The classes of an exception that the statements tell apart.\<close>

definition is_redundant :: "parsing_error \<Rightarrow> bool" where
  "is_redundant e = (case err_class e of Redundant v \<Rightarrow> True | _ \<Rightarrow> False)"

definition is_invalid_option :: "parsing_error \<Rightarrow> bool" where
  "is_invalid_option e = (case err_class e of InvalidOption p v \<Rightarrow> True | _ \<Rightarrow> False)"

text \<open>
  The number of user tokens a frame has used up: those pulled from \<^verbatim>\<open>user_args\<close>,
  less the one that still waits in \<^verbatim>\<open>user_arg\<close>.
\<close>

definition taken :: "frame \<Rightarrow> nat" where
  "taken fr = (case user_arg fr of None \<Rightarrow> user_args_index fr | Some t \<Rightarrow> user_args_index fr - 1)"

text \<open>An argument is truthy, as Python tests it, when its string is not empty.\<close>

definition truthy :: "argument \<Rightarrow> bool" where
  "truthy a = (arg_value a \<noteq> [])"

text \<open>
  The invariant of \<^verbatim>\<open>user_arg\<close> and \<^verbatim>\<open>user_args_index\<close>: the index stays within
  the tokens, and a waiting token is the one pulled last.
\<close>

definition buffer_ok :: "string list \<Rightarrow> frame \<Rightarrow> bool" where
  "buffer_ok toks fr =
     (user_args_index fr \<le> length toks \<and>
      (case user_arg fr of
         None \<Rightarrow> True
       | Some t \<Rightarrow> 0 < user_args_index fr \<and> toks ! (user_args_index fr - 1) = t))"

text \<open>
  The number of user tokens that one call matches with an argument part: the truthy
  arguments that the loop appends to \<^verbatim>\<open>resolved_args\<close>, each of which is a token
  taken and lowers the badness counter by one. The command's own value is not counted.
\<close>

definition matched_tokens :: "'s wrapper \<Rightarrow> string \<Rightarrow> string list \<Rightarrow> argument \<Rightarrow> nat" where
  "matched_tokens w tok toks c =
     length (filter truthy (resolved_args (parse w tok toks c))) -
     length (filter truthy (resolved_args (seed w tok c)))"

text \<open>
  A candidate is a command whose command part accepts the first token of the input.
\<close>

definition candidate :: "'s wrapper \<Rightarrow> string \<Rightarrow> bool" where
  "candidate w tok = (case Part_match (command w) tok of Inl e \<Rightarrow> False | Inr c \<Rightarrow> True)"

text \<open>The events that one call of \<^verbatim>\<open>resolve\<close> adds to those of the world it starts in.\<close>

definition new_events :: "'s world \<Rightarrow> string \<Rightarrow> event list" where
  "new_events w user_input = drop (length (out w)) (out (resolve w user_input))"

text \<open>
  The loop of \<^verbatim>\<open>resolve\<close> on a world and an input line; dispatch succeeds when it
  finds a wrapper that returns \<^verbatim>\<open>True\<close>.
\<close>

definition first_pass :: "'s world \<Rightarrow> string \<Rightarrow> 's loop_out" where
  "first_pass w user_input =
     try_commands (command_list w) 0 (user_list_of user_input) (app w)"

text \<open>
  What \<^verbatim>\<open>resolve\<close> prints before it falls back to the help: the exceptions caught,
  or, when there are none, the unknown command if the first token is not empty.
\<close>

definition complaint :: "string list \<Rightarrow> parsing_error list \<Rightarrow> event list" where
  "complaint user_list es =
     (if es \<noteq> [] then print_exceptions es
      else if hd user_list \<noteq> [] then
        [Print (''Unknown command '' @ hd user_list @ ''.'' @ newline), Print newline]
      else [])"

text \<open>The world in which the recursive call of \<^verbatim>\<open>resolve\<close> starts.\<close>

definition fallback_world :: "'s world \<Rightarrow> string \<Rightarrow> 's world" where
  "fallback_world w user_input =
     (after_loop w (first_pass w user_input))
       \<lparr>out := out w @ events (first_pass w user_input) @
          complaint (user_list_of user_input) (logged_exceptions (first_pass w user_input)) @
          [Fallback],
        help_search := True\<rparr>"

section \<open>The part matcher\<close>

lemma split_on_nonempty: "split_on sep s \<noteq> []"
  by (induction s) (auto split: list.splits)

lemma Part_init_a_x:
  "Part_init ''a|<x>'' =
     \<lparr>part_str = ''a|<x>'', mandatory = True, free_name = ''x'', options = [''a'']\<rparr>"
  by (simp add: Part_init_def Part_enclosed_def strip_ends_def)

lemma Part_init_opt_a:
  "Part_init ''[a]'' =
     \<lparr>part_str = ''[a]'', mandatory = False, free_name = [], options = [''a'']\<rparr>"
  by (simp add: Part_init_def Part_enclosed_def strip_ends_def)

lemma Part_init_a:
  "Part_init ''a'' = \<lparr>part_str = ''a'', mandatory = True, free_name = [], options = [''a'']\<rparr>"
  by (simp add: Part_init_def Part_enclosed_def strip_ends_def)

text \<open>
  Claim C5. \<^verbatim>\<open>_Part.match\<close> decides in strict priority. A token that is one of the
  literal options gives the literal argument, with no name, whether or not the part
  has a free option that could take it. Otherwise a token that is not empty, on a part
  with a free option, gives the argument labelled with the free option's name.
  Otherwise an optional part gives the empty argument. Otherwise
  \<^verbatim>\<open>_InvalidOption\<close> is raised, with badness 3.
\<close>

theorem Part_match_priority:
  "(tok \<in> set (options p) \<longrightarrow> Part_match p tok = Inr (Argument tok None)) \<and>
   (tok \<notin> set (options p) \<and> tok \<noteq> [] \<and> free_name p \<noteq> [] \<longrightarrow>
      Part_match p tok = Inr (Argument tok (Some (free_name p)))) \<and>
   (tok \<notin> set (options p) \<and> (tok = [] \<or> free_name p = []) \<and> \<not> mandatory p \<longrightarrow>
      Part_match p tok = Inr (Argument [] None)) \<and>
   (tok \<notin> set (options p) \<and> (tok = [] \<or> free_name p = []) \<and> mandatory p \<longrightarrow>
      Part_match p tok = Inl (InvalidOption_init p tok) \<and>
      badness (InvalidOption_init p tok) = 3)"
  by (auto simp: Part_match_def InvalidOption_init_def)

theorem Part_match_priority_witness:
  "Part_match (Part_init ''a|<x>'') ''a'' = Inr (Argument ''a'' None) \<and>
   Part_match (Part_init ''a|<x>'') ''b'' = Inr (Argument ''b'' (Some ''x'')) \<and>
   Part_match (Part_init ''[a]'') ''b'' = Inr (Argument [] None) \<and>
   Part_match (Part_init ''a'') ''b'' = Inl (InvalidOption_init (Part_init ''a'') ''b'') \<and>
   badness (InvalidOption_init (Part_init ''a'') ''b'') = 3"
proof -
  have 1: "''a'' \<in> set (options (Part_init ''a|<x>''))"
    by (simp add: Part_init_a_x)
  have 2: "''b'' \<notin> set (options (Part_init ''a|<x>'')) \<and> ''b'' \<noteq> [] \<and>
      free_name (Part_init ''a|<x>'') \<noteq> []"
    by (simp add: Part_init_a_x)
  have 3: "''b'' \<notin> set (options (Part_init ''[a]'')) \<and>
      (''b'' = [] \<or> free_name (Part_init ''[a]'') = []) \<and> \<not> mandatory (Part_init ''[a]'')"
    by (simp add: Part_init_opt_a)
  have 4: "''b'' \<notin> set (options (Part_init ''a'')) \<and>
      (''b'' = [] \<or> free_name (Part_init ''a'') = []) \<and> mandatory (Part_init ''a'')"
    by (simp add: Part_init_a)
  have 5: "free_name (Part_init ''a|<x>'') = ''x''"
    by (simp add: Part_init_a_x)
  have a: "Part_match (Part_init ''a|<x>'') ''a'' = Inr (Argument ''a'' None)"
    using 1 Part_match_priority [of "''a''" "Part_init ''a|<x>''"] by blast
  have b: "Part_match (Part_init ''a|<x>'') ''b'' = Inr (Argument ''b'' (Some ''x''))"
    using 2 Part_match_priority [of "''b''" "Part_init ''a|<x>''"] unfolding 5 by blast
  have c: "Part_match (Part_init ''[a]'') ''b'' = Inr (Argument [] None)"
    using 3 Part_match_priority [of "''b''" "Part_init ''[a]''"] by blast
  have d: "Part_match (Part_init ''a'') ''b'' = Inl (InvalidOption_init (Part_init ''a'') ''b'') \<and>
      badness (InvalidOption_init (Part_init ''a'') ''b'') = 3"
    using 4 Part_match_priority [of "''b''" "Part_init ''a''"] by blast
  from a b c d show ?thesis by blast
qed

lemma Part_match_Inl_iff:
  "(\<exists>e. Part_match p tok = Inl e) \<longleftrightarrow>
     mandatory p \<and> tok \<notin> set (options p) \<and> (free_name p = [] \<or> tok = [])"
  by (auto simp: Part_match_def)

lemma Part_match_Inl_eq: "Part_match p tok = Inl e \<Longrightarrow> e = InvalidOption_init p tok"
  by (auto simp: Part_match_def split: if_splits)

section \<open>One call of a wrapper\<close>

lemma result_finish_neq: "result (finish w fr a c) \<noteq> NotCandidate"
  by (simp add: finish_def Let_def split: option.splits)

lemma Wrapper_call_candidate:
  "Part_match (command w) tok = Inr x \<Longrightarrow> result (Wrapper_call w s tok toks) \<noteq> NotCandidate"
  by (simp add: Wrapper_call_def Let_def result_finish_neq
      split: prod.splits handler_outcome.splits)

lemma Wrapper_call_not_candidate:
  "Part_match (command w) tok = Inl e \<Longrightarrow>
   Wrapper_call w s tok toks =
     \<lparr>result = NotCandidate, self_after = w\<lparr>first_exception := None\<rparr>,
      app_after = s, invoked = None, errors_logged = []\<rparr>"
  by (simp add: Wrapper_call_def)

text \<open>
  Claim C10. \<^verbatim>\<open>_Part.match\<close> raises exactly when the part is mandatory, the token
  is none of its literal options, and the part has no free option or the token is
  empty; what it raises is the \<^verbatim>\<open>_InvalidOption\<close> of that part and token. So a
  wrapper whose command part is optional accepts every first token: its call never
  gives \<^verbatim>\<open>False\<close>, whatever the tokens are.
\<close>

theorem Part_match_raises_iff:
  "((\<exists>e. Part_match p tok = Inl e) \<longleftrightarrow>
      mandatory p \<and> tok \<notin> set (options p) \<and> (free_name p = [] \<or> tok = [])) \<and>
   (Part_match p tok = Inl e \<longrightarrow> e = InvalidOption_init p tok) \<and>
   (\<not> mandatory (command w) \<longrightarrow>
      (\<exists>x. Part_match (command w) tok = Inr x) \<and>
      result (Wrapper_call w s tok toks) \<noteq> NotCandidate)"
proof -
  have "\<exists>x. Part_match (command w) tok = Inr x" if "\<not> mandatory (command w)"
    using that Part_match_Inl_iff [of "command w" tok]
    by (cases "Part_match (command w) tok") auto
  then show ?thesis
    using Part_match_Inl_iff [of p tok] Part_match_Inl_eq [of p tok e]
      Wrapper_call_candidate [of w tok _ s toks]
    by blast
qed

lemma Command_parts_opt_a: "Command_parts ''[a]'' = (Part_init ''[a]'', [])"
  by (simp add: Command_parts_def is_space_def)

theorem Part_match_raises_iff_witness:
  "\<not> mandatory (command (Wrapper_init ''[a]'' accepting)) \<and>
   result (Wrapper_call (Wrapper_init ''[a]'' accepting) () ''b'' [''c'']) \<noteq> NotCandidate \<and>
   (\<exists>e. Part_match (Part_init ''a'') ''b'' = Inl e)"
proof -
  have 1: "\<not> mandatory (command (Wrapper_init ''[a]'' accepting))"
    by (simp add: Wrapper_init_def Command_parts_opt_a Part_init_opt_a)
  have 2: "mandatory (Part_init ''a'') \<and> ''b'' \<notin> set (options (Part_init ''a'')) \<and>
      (free_name (Part_init ''a'') = [] \<or> ''b'' = [])"
    by (simp add: Part_init_a)
  show ?thesis
    using 1 2
      Part_match_raises_iff [of "Part_init ''a''" "''b''"
        "InvalidOption_init (Part_init ''a'') ''b''"
        "Wrapper_init ''[a]'' accepting" "()" "[''c'']"]
    by blast
qed

lemma walk_break:
  "user_arg (pull toks fr) = None \<Longrightarrow> mandatory p \<Longrightarrow>
   walk (p # ps) toks fr = Wrapper_log_exception (pull toks fr) (MissingMandatory_init p)"
  by (simp add: Let_def)

lemma walk_typo:
  "user_arg (pull toks fr) \<noteq> None \<or> \<not> mandatory p \<Longrightarrow>
   Part_match p (or_empty (user_arg (pull toks fr))) = Inl e \<Longrightarrow>
   walk (p # ps) toks fr =
     walk ps toks ((Wrapper_log_exception (pull toks fr) e)\<lparr>user_arg := None\<rparr>)"
  by (auto simp: Let_def)

lemma walk_match:
  "user_arg (pull toks fr) \<noteq> None \<or> \<not> mandatory p \<Longrightarrow>
   Part_match p (or_empty (user_arg (pull toks fr))) = Inr a \<Longrightarrow> arg_value a \<noteq> [] \<Longrightarrow>
   walk (p # ps) toks fr =
     walk ps toks
       ((pull toks fr)\<lparr>resolved_args := resolved_args (pull toks fr) @ [a], user_arg := None,
          fr_badness := fr_badness (pull toks fr) - 1\<rparr>)"
  by (auto simp: Let_def)

lemma walk_skip:
  "user_arg (pull toks fr) \<noteq> None \<or> \<not> mandatory p \<Longrightarrow>
   Part_match p (or_empty (user_arg (pull toks fr))) = Inr a \<Longrightarrow> arg_value a = [] \<Longrightarrow>
   walk (p # ps) toks fr =
     walk ps toks ((pull toks fr)\<lparr>resolved_args := resolved_args (pull toks fr) @ [a]\<rparr>)"
  by (auto simp: Let_def)

lemma walk_cases:
  obtains "user_arg (pull toks fr) = None" "mandatory p"
  | e where "user_arg (pull toks fr) \<noteq> None \<or> \<not> mandatory p"
      "Part_match p (or_empty (user_arg (pull toks fr))) = Inl e"
  | a where "user_arg (pull toks fr) \<noteq> None \<or> \<not> mandatory p"
      "Part_match p (or_empty (user_arg (pull toks fr))) = Inr a" "arg_value a \<noteq> []"
  | a where "user_arg (pull toks fr) \<noteq> None \<or> \<not> mandatory p"
      "Part_match p (or_empty (user_arg (pull toks fr))) = Inr a" "arg_value a = []"
  by (cases "Part_match p (or_empty (user_arg (pull toks fr)))") blast+

lemma walk_invariant:
  assumes init: "P fr"
    and break: "\<And>fr p. P fr \<Longrightarrow> user_arg (pull toks fr) = None \<Longrightarrow> mandatory p \<Longrightarrow>
      P (Wrapper_log_exception (pull toks fr) (MissingMandatory_init p))"
    and typo: "\<And>fr p e. P fr \<Longrightarrow> user_arg (pull toks fr) \<noteq> None \<or> \<not> mandatory p \<Longrightarrow>
      Part_match p (or_empty (user_arg (pull toks fr))) = Inl e \<Longrightarrow>
      P ((Wrapper_log_exception (pull toks fr) e)\<lparr>user_arg := None\<rparr>)"
    and match: "\<And>fr p a. P fr \<Longrightarrow> user_arg (pull toks fr) \<noteq> None \<or> \<not> mandatory p \<Longrightarrow>
      Part_match p (or_empty (user_arg (pull toks fr))) = Inr a \<Longrightarrow> arg_value a \<noteq> [] \<Longrightarrow>
      P ((pull toks fr)\<lparr>resolved_args := resolved_args (pull toks fr) @ [a], user_arg := None,
          fr_badness := fr_badness (pull toks fr) - 1\<rparr>)"
    and skip: "\<And>fr p a. P fr \<Longrightarrow> user_arg (pull toks fr) \<noteq> None \<or> \<not> mandatory p \<Longrightarrow>
      Part_match p (or_empty (user_arg (pull toks fr))) = Inr a \<Longrightarrow> arg_value a = [] \<Longrightarrow>
      P ((pull toks fr)\<lparr>resolved_args := resolved_args (pull toks fr) @ [a]\<rparr>)"
  shows "P (walk ps toks fr)"
  using init
proof (induction ps arbitrary: fr)
  case Nil
  then show ?case by simp
next
  case (Cons p ps)
  show ?case
  proof (cases rule: walk_cases [of toks fr p])
    case 1
    have "P (Wrapper_log_exception (pull toks fr) (MissingMandatory_init p))"
      by (rule break [OF Cons.prems 1])
    then show ?thesis by (simp only: walk_break [OF 1])
  next
    case (2 e)
    have "P (walk ps toks ((Wrapper_log_exception (pull toks fr) e)\<lparr>user_arg := None\<rparr>))"
      by (rule Cons.IH, rule typo [OF Cons.prems 2])
    then show ?thesis by (simp only: walk_typo [OF 2])
  next
    case (3 a)
    have "P (walk ps toks
       ((pull toks fr)\<lparr>resolved_args := resolved_args (pull toks fr) @ [a], user_arg := None,
          fr_badness := fr_badness (pull toks fr) - 1\<rparr>))"
      by (rule Cons.IH, rule match [OF Cons.prems 3])
    then show ?thesis by (simp only: walk_match [OF 3])
  next
    case (4 a)
    have "P (walk ps toks ((pull toks fr)\<lparr>resolved_args := resolved_args (pull toks fr) @ [a]\<rparr>))"
      by (rule Cons.IH, rule skip [OF Cons.prems 4])
    then show ?thesis by (simp only: walk_skip [OF 4])
  qed
qed

lemma representative_Nil [simp]: "representative [] = None"
  by (simp add: representative_def)

lemma representative_eq_None [simp]: "representative es = None \<longleftrightarrow> es = []"
  by (simp add: representative_def split: list.splits)

lemma representative_single: "representative [e] = Some e"
  by (simp add: representative_def)

lemma Max_insert_swap:
  fixes a e :: int
  assumes "finite S"
  shows "max a (Max (insert e S)) = max (Max (insert a S)) e"
proof (cases "S = {}")
  case True
  then show ?thesis by (simp add: max.commute)
next
  case False
  then show ?thesis using assms by (simp add: max.left_commute)
qed

lemma representative_snoc:
  "representative es = Some f \<Longrightarrow>
   representative (es @ [e]) =
     Some (ParsingError (err_class f) (message f) (max (badness f) (badness e)))"
  by (cases es) (auto simp: representative_def Max_insert_swap)

lemma logged_log_exception [simp]:
  "logged (Wrapper_log_exception fr e) = logged fr @ [e]"
  by (simp add: Wrapper_log_exception_def split: option.splits)

lemma log_exception_representative:
  assumes "fr_first_exception fr = representative (logged fr)"
  shows "fr_first_exception (Wrapper_log_exception fr e) =
     representative (logged (Wrapper_log_exception fr e))"
proof (cases "fr_first_exception fr")
  case None
  then have "logged fr = []" using assms by simp
  then show ?thesis
    using None by (simp add: Wrapper_log_exception_def representative_single)
next
  case (Some f)
  then have "representative (logged fr) = Some f" using assms by simp
  from representative_snoc [OF this, of e] show ?thesis
    using Some by (simp add: Wrapper_log_exception_def)
qed

lemma pull_simps [simp]:
  "fr_first_exception (pull toks fr) = fr_first_exception fr"
  "logged (pull toks fr) = logged fr"
  "fr_badness (pull toks fr) = fr_badness fr"
  "resolved_args (pull toks fr) = resolved_args fr"
  by (simp_all add: pull_def)

lemma walk_representative:
  "fr_first_exception fr = representative (logged fr) \<Longrightarrow>
   fr_first_exception (walk ps toks fr) = representative (logged (walk ps toks fr))"
proof (rule walk_invariant [where P = "\<lambda>fr::frame. fr_first_exception fr = representative (logged fr)"])
  fix fr :: frame and p
  assume "fr_first_exception fr = representative (logged fr)"
  then show "fr_first_exception (Wrapper_log_exception (pull toks fr) (MissingMandatory_init p)) =
      representative (logged (Wrapper_log_exception (pull toks fr) (MissingMandatory_init p)))"
    by (intro log_exception_representative) simp
next
  fix fr :: frame and p e
  assume "fr_first_exception fr = representative (logged fr)"
  then have "fr_first_exception (Wrapper_log_exception (pull toks fr) e) =
      representative (logged (Wrapper_log_exception (pull toks fr) e))"
    by (intro log_exception_representative) simp
  then show "fr_first_exception ((Wrapper_log_exception (pull toks fr) e)\<lparr>user_arg := None\<rparr>) =
      representative (logged ((Wrapper_log_exception (pull toks fr) e)\<lparr>user_arg := None\<rparr>))"
    by simp
qed simp_all

lemma after_walk_representative:
  "fr_first_exception fr = representative (logged fr) \<Longrightarrow>
   fr_first_exception (after_walk toks fr) = representative (logged (after_walk toks fr))"
  by (simp add: after_walk_def log_exception_representative split: option.splits)

lemma parse_representative:
  "fr_first_exception (parse w tok toks c) = representative (logged (parse w tok toks c))"
  unfolding parse_def
  by (rule after_walk_representative, rule walk_representative) (simp add: seed_def)


lemma parse_first_exception_None:
  "fr_first_exception (parse w tok toks c) = None \<longleftrightarrow> logged (parse w tok toks c) = []"
  by (simp add: parse_representative)

lemma Wrapper_call_cases:
  assumes "Part_match (command w) tok = Inr c"
  obtains
    "logged (parse w tok toks c) \<noteq> []"
    "Wrapper_call w s tok toks = finish w (parse w tok toks c) s None"
  | s' where "logged (parse w tok toks c) = []"
    "handler w s (resolved_args (parse w tok toks c)) = (Returned, s')"
    "Wrapper_call w s tok toks =
       finish w (parse w tok toks c) s' (Some (resolved_args (parse w tok toks c), Returned))"
  | e s' where "logged (parse w tok toks c) = []"
    "handler w s (resolved_args (parse w tok toks c)) = (HandlerRaised e, s')"
    "Wrapper_call w s tok toks =
       finish w (Wrapper_log_exception (parse w tok toks c) e) s'
         (Some (resolved_args (parse w tok toks c), HandlerRaised e))"
proof (cases "logged (parse w tok toks c) = []")
  case False
  then have "Wrapper_call w s tok toks = finish w (parse w tok toks c) s None"
    using assms by (simp add: Wrapper_call_def Let_def parse_first_exception_None)
  with False show ?thesis using that(1) by blast
next
  case True
  obtain o' s' where h: "handler w s (resolved_args (parse w tok toks c)) = (o', s')"
    by (cases "handler w s (resolved_args (parse w tok toks c))")
  show ?thesis
  proof (cases o')
    case Returned
    then have "Wrapper_call w s tok toks =
        finish w (parse w tok toks c) s' (Some (resolved_args (parse w tok toks c), Returned))"
      using assms True h by (simp add: Wrapper_call_def Let_def parse_first_exception_None)
    with True h Returned show ?thesis using that(2) by blast
  next
    case (HandlerRaised e)
    then have "Wrapper_call w s tok toks =
        finish w (Wrapper_log_exception (parse w tok toks c) e) s'
          (Some (resolved_args (parse w tok toks c), HandlerRaised e))"
      using assms True h by (simp add: Wrapper_call_def Let_def parse_first_exception_None)
    with True h HandlerRaised show ?thesis using that(3) by blast
  qed
qed

lemma finish_simps [simp]:
  "errors_logged (finish w fr a c) = logged fr"
  "wbadness (self_after (finish w fr a c)) = fr_badness fr"
  "invoked (finish w fr a c) = c"
  "app_after (finish w fr a c) = a"
  by (simp_all add: finish_def Let_def split: option.splits)

lemma result_finish:
  assumes "fr_first_exception fr = representative (logged fr)"
  shows "result (finish w fr a c) =
     (if logged fr = [] then Matched
      else Raised (ParsingError (err_class (hd (logged fr))) (message (hd (logged fr)))
             (Max (badness ` set (logged fr)) + fr_badness fr)))"
  using assms by (cases "logged fr") (simp_all add: finish_def representative_def)

lemma fr_badness_log_exception [simp]:
  "fr_badness (Wrapper_log_exception fr e) = fr_badness fr"
  by (simp add: Wrapper_log_exception_def split: option.splits)




section \<open>Tokens left over\<close>

lemma is_redundant_simps [simp]:
  "is_redundant (Redundant_init v)"
  "\<not> is_redundant (MissingMandatory_init p)"
  "\<not> is_redundant (InvalidOption_init p v)"
  by (simp_all add: is_redundant_def Redundant_init_def MissingMandatory_init_def
      InvalidOption_init_def)

lemma is_invalid_option_simps [simp]:
  "\<not> is_invalid_option (Redundant_init v)"
  "\<not> is_invalid_option (MissingMandatory_init p)"
  "is_invalid_option (InvalidOption_init p v)"
  by (simp_all add: is_invalid_option_def Redundant_init_def MissingMandatory_init_def
      InvalidOption_init_def)

lemma log_exception_simps [simp]:
  "resolved_args (Wrapper_log_exception fr e) = resolved_args fr"
  "user_arg (Wrapper_log_exception fr e) = user_arg fr"
  "user_args_index (Wrapper_log_exception fr e) = user_args_index fr"
  by (simp_all add: Wrapper_log_exception_def split: option.splits)

lemma buffer_ok_pull: "buffer_ok toks fr \<Longrightarrow> buffer_ok toks (pull toks fr)"
  by (auto simp: buffer_ok_def pull_def split: option.splits)

lemma taken_pull: "taken (pull toks fr) = taken fr"
  by (simp add: taken_def pull_def)

lemma buffer_ok_clear:
  "buffer_ok toks fr \<Longrightarrow> user_args_index fr' = user_args_index fr \<Longrightarrow> user_arg fr' = None \<Longrightarrow>
   buffer_ok toks fr'"
  by (simp add: buffer_ok_def)

lemma buffer_ok_same:
  "buffer_ok toks fr \<Longrightarrow> user_args_index fr' = user_args_index fr \<Longrightarrow>
   user_arg fr' = user_arg fr \<Longrightarrow> buffer_ok toks fr'"
  by (auto simp: buffer_ok_def split: option.splits)

lemma walk_buffer_ok: "buffer_ok toks fr \<Longrightarrow> buffer_ok toks (walk ps toks fr)"
proof (rule walk_invariant [where P = "buffer_ok toks"])
  fix fr :: frame and p
  assume "buffer_ok toks fr"
  then have "buffer_ok toks (pull toks fr)" by (rule buffer_ok_pull)
  then show "buffer_ok toks (Wrapper_log_exception (pull toks fr) (MissingMandatory_init p))"
    by (rule buffer_ok_same) simp_all
next
  fix fr :: frame and p e
  assume "buffer_ok toks fr"
  then have "buffer_ok toks (pull toks fr)" by (rule buffer_ok_pull)
  then show "buffer_ok toks ((Wrapper_log_exception (pull toks fr) e)\<lparr>user_arg := None\<rparr>)"
    by (rule buffer_ok_clear) simp_all
next
  fix fr :: frame and p a
  assume "buffer_ok toks fr"
  then have "buffer_ok toks (pull toks fr)" by (rule buffer_ok_pull)
  then show "buffer_ok toks
      ((pull toks fr)\<lparr>resolved_args := resolved_args (pull toks fr) @ [a], user_arg := None,
         fr_badness := fr_badness (pull toks fr) - 1\<rparr>)"
    by (rule buffer_ok_clear) simp_all
next
  fix fr :: frame and p a
  assume "buffer_ok toks fr"
  then have "buffer_ok toks (pull toks fr)" by (rule buffer_ok_pull)
  then show "buffer_ok toks ((pull toks fr)\<lparr>resolved_args := resolved_args (pull toks fr) @ [a]\<rparr>)"
    by (rule buffer_ok_same) simp_all
qed

lemma walk_no_redundant:
  "filter is_redundant (logged fr) = [] \<Longrightarrow> filter is_redundant (logged (walk ps toks fr)) = []"
proof (rule walk_invariant [where P = "\<lambda>fr. filter is_redundant (logged fr) = []"])
  fix fr :: frame and p e
  assume "filter is_redundant (logged fr) = []"
    and "Part_match p (or_empty (user_arg (pull toks fr))) = Inl e"
  then show "filter is_redundant
      (logged ((Wrapper_log_exception (pull toks fr) e)\<lparr>user_arg := None\<rparr>)) = []"
    using Part_match_Inl_eq [of p "or_empty (user_arg (pull toks fr))" e] by simp
qed simp_all

lemma buffer_ok_seed: "buffer_ok toks (seed w tok c)"
  by (simp add: buffer_ok_def seed_def)

lemma taken_less_iff:
  "buffer_ok toks fr \<Longrightarrow>
   taken fr < length toks \<longleftrightarrow> user_arg fr \<noteq> None \<or> user_args_index fr < length toks"
  by (auto simp: buffer_ok_def taken_def split: option.splits)

lemma after_walk_logged:
  "buffer_ok toks fr \<Longrightarrow>
   logged (after_walk toks fr) =
     logged fr @ (if taken fr < length toks then [Redundant_init (toks ! taken fr)] else [])"
  by (auto simp: after_walk_def buffer_ok_def taken_def split: option.splits)

section \<open>The arguments handed to the handler\<close>

declare walk.simps(2) [simp del]

lemma Part_match_value: "Part_match p t = Inr a \<Longrightarrow> arg_value a = t \<or> arg_value a = []"
  by (auto simp: Part_match_def split: if_splits)

lemma Part_match_again: "Part_match p t = Inr a \<Longrightarrow> Part_match p (arg_value a) = Inr a"
  by (auto simp: Part_match_def split: if_splits)

lemma Part_match_Inl_mandatory: "Part_match p t = Inl e \<Longrightarrow> mandatory p"
  by (auto simp: Part_match_def split: if_splits)

lemma or_empty_simps [simp]: "or_empty None = []" "or_empty (Some t) = t"
  by (simp_all add: or_empty_def)

lemma match_truthy_buffered:
  assumes "Part_match p (or_empty (user_arg fr)) = Inr a" "arg_value a \<noteq> []"
  shows "user_arg fr = Some (arg_value a)"
  using assms Part_match_value [OF assms(1)] by (cases "user_arg fr") auto

lemma walk_logged_grows: "\<exists>es. logged (walk ps toks fr) = logged fr @ es"
  by (rule walk_invariant [where P = "\<lambda>fr'. \<exists>es. logged fr' = logged fr @ es"]) auto

lemma walk_logged_Nil: "logged (walk ps toks fr) = [] \<Longrightarrow> logged fr = []"
  using walk_logged_grows [of ps toks fr] by auto

lemma taken_clear:
  "buffer_ok toks fr \<Longrightarrow> user_arg fr = Some t \<Longrightarrow> user_args_index fr' = user_args_index fr \<Longrightarrow>
   user_arg fr' = None \<Longrightarrow> taken fr' = Suc (taken fr) \<and> taken fr < length toks \<and> toks ! taken fr = t"
  by (auto simp: buffer_ok_def taken_def)

lemma taken_same:
  "user_args_index fr' = user_args_index fr \<Longrightarrow> user_arg fr' = user_arg fr \<Longrightarrow>
   taken fr' = taken fr"
  by (auto simp: taken_def split: option.splits)

lemma walk_success:
  assumes "buffer_ok toks fr" "logged (walk ps toks fr) = []"
  shows "\<exists>ys. resolved_args (walk ps toks fr) = resolved_args fr @ ys \<and>
      list_all2 (\<lambda>p y. Part_match p (arg_value y) = Inr y) ps ys \<and>
      take (taken (walk ps toks fr)) toks = take (taken fr) toks @ map arg_value (filter truthy ys)"
  using assms
proof (induction ps arbitrary: fr)
  case Nil
  then show ?case by simp
next
  case (Cons p ps)
  let ?fr1 = "pull toks fr"
  have ok1: "buffer_ok toks ?fr1" by (rule buffer_ok_pull [OF Cons.prems(1)])
  have t1: "taken ?fr1 = taken fr" by (rule taken_pull)
  show ?case
  proof (cases rule: walk_cases [of toks fr p])
    case 1
    then show ?thesis using Cons.prems(2) by (simp add: walk_break)
  next
    case (2 e)
    have "logged (walk ps toks ((Wrapper_log_exception ?fr1 e)\<lparr>user_arg := None\<rparr>)) = []"
      using Cons.prems(2) by (simp only: walk_typo [OF 2])
    from walk_logged_Nil [OF this] show ?thesis by simp
  next
    case (3 a)
    let ?fr2 = "?fr1\<lparr>resolved_args := resolved_args ?fr1 @ [a], user_arg := None,
          fr_badness := fr_badness ?fr1 - 1\<rparr>"
    have w: "walk (p # ps) toks fr = walk ps toks ?fr2" by (rule walk_match [OF 3])
    have buf: "user_arg ?fr1 = Some (arg_value a)"
      by (rule match_truthy_buffered [OF 3(2,3)])
    have ok2: "buffer_ok toks ?fr2" by (rule buffer_ok_clear [OF ok1]) simp_all
    have t2: "taken ?fr2 = Suc (taken ?fr1) \<and> taken ?fr1 < length toks \<and>
        toks ! taken ?fr1 = arg_value a"
      by (rule taken_clear [OF ok1 buf]) simp_all
    have "logged (walk ps toks ?fr2) = []" using Cons.prems(2) by (simp only: w)
    from Cons.IH [OF ok2 this] obtain ys where
      ys: "resolved_args (walk ps toks ?fr2) = resolved_args ?fr2 @ ys"
        "list_all2 (\<lambda>p y. Part_match p (arg_value y) = Inr y) ps ys"
        "take (taken (walk ps toks ?fr2)) toks = take (taken ?fr2) toks @ map arg_value (filter truthy ys)"
      by blast
    have "take (taken ?fr2) toks = take (taken fr) toks @ [arg_value a]"
      using t2 t1 by (simp add: take_Suc_conv_app_nth)
    then have "resolved_args (walk (p # ps) toks fr) = resolved_args fr @ (a # ys) \<and>
        list_all2 (\<lambda>p y. Part_match p (arg_value y) = Inr y) (p # ps) (a # ys) \<and>
        take (taken (walk (p # ps) toks fr)) toks =
          take (taken fr) toks @ map arg_value (filter truthy (a # ys))"
      using ys 3(3) Part_match_again [OF 3(2)] by (simp add: w truthy_def)
    then show ?thesis by blast
  next
    case (4 a)
    let ?fr2 = "?fr1\<lparr>resolved_args := resolved_args ?fr1 @ [a]\<rparr>"
    have w: "walk (p # ps) toks fr = walk ps toks ?fr2" by (rule walk_skip [OF 4])
    have ok2: "buffer_ok toks ?fr2" by (rule buffer_ok_same [OF ok1]) simp_all
    have t2: "taken ?fr2 = taken ?fr1" by (rule taken_same) simp_all
    have "logged (walk ps toks ?fr2) = []" using Cons.prems(2) by (simp only: w)
    from Cons.IH [OF ok2 this] obtain ys where
      ys: "resolved_args (walk ps toks ?fr2) = resolved_args ?fr2 @ ys"
        "list_all2 (\<lambda>p y. Part_match p (arg_value y) = Inr y) ps ys"
        "take (taken (walk ps toks ?fr2)) toks = take (taken ?fr2) toks @ map arg_value (filter truthy ys)"
      by blast
    have "resolved_args (walk (p # ps) toks fr) = resolved_args fr @ (a # ys) \<and>
        list_all2 (\<lambda>p y. Part_match p (arg_value y) = Inr y) (p # ps) (a # ys) \<and>
        take (taken (walk (p # ps) toks fr)) toks =
          take (taken fr) toks @ map arg_value (filter truthy (a # ys))"
      using ys 4(3) Part_match_again [OF 4(2)] t2 t1 by (simp add: w truthy_def)
    then show ?thesis by blast
  qed
qed

lemma parse_success:
  assumes "logged (parse w tok toks c) = []"
  shows "\<exists>ys. resolved_args (parse w tok toks c) = resolved_args (seed w tok c) @ ys \<and>
      list_all2 (\<lambda>p y. Part_match p (arg_value y) = Inr y) (args w) ys \<and>
      map arg_value (filter truthy ys) = toks"
proof -
  let ?fr = "walk (args w) toks (seed w tok c)"
  have ok: "buffer_ok toks ?fr" by (rule walk_buffer_ok [OF buffer_ok_seed])
  have l: "logged (after_walk toks ?fr) = []" using assms by (simp add: parse_def)
  then have l0: "logged ?fr = []" and full: "\<not> taken ?fr < length toks"
    by (auto simp: after_walk_logged [OF ok] split: if_splits)
  have r: "resolved_args (parse w tok toks c) = resolved_args ?fr"
    by (simp add: parse_def after_walk_def split: option.splits)
  from walk_success [OF buffer_ok_seed l0] obtain ys where
    ys: "resolved_args ?fr = resolved_args (seed w tok c) @ ys"
      "list_all2 (\<lambda>p y. Part_match p (arg_value y) = Inr y) (args w) ys"
      "take (taken ?fr) toks = take (taken (seed w tok c)) toks @ map arg_value (filter truthy ys)"
    by blast
  have "taken (seed w tok c) = 0" by (simp add: taken_def seed_def)
  then have "map arg_value (filter truthy ys) = toks"
    using ys(3) full by simp
  with ys r show ?thesis by auto
qed

lemma Wrapper_call_Matched:
  assumes "result (Wrapper_call w s tok toks) = Matched"
  obtains c where "Part_match (command w) tok = Inr c" "logged (parse w tok toks c) = []"
    "invoked (Wrapper_call w s tok toks) = Some (resolved_args (parse w tok toks c), Returned)"
proof (cases "Part_match (command w) tok")
  case (Inl e)
  then show ?thesis using assms by (simp add: Wrapper_call_not_candidate)
next
  case (Inr c)
  show ?thesis
  proof (cases rule: Wrapper_call_cases [OF Inr, of toks s])
    case 1
    then show ?thesis
      using assms by (simp add: result_finish [OF parse_representative])
  next
    case (2 s')
    then show ?thesis using that [OF Inr] by simp
  next
    case (3 e s')
    have "fr_first_exception (Wrapper_log_exception (parse w tok toks c) e) =
        representative (logged (Wrapper_log_exception (parse w tok toks c) e))"
      by (rule log_exception_representative [OF parse_representative])
    then have "result (finish w (Wrapper_log_exception (parse w tok toks c) e) s'
        (Some (resolved_args (parse w tok toks c), HandlerRaised e))) \<noteq> Matched"
      by (simp add: result_finish)
    then show ?thesis using assms 3 by simp
  qed
qed

lemma invoked_when_parsed:
  assumes "Part_match (command w) tok = Inr c" "logged (parse w tok toks c) = []"
  shows "invoked (Wrapper_call w s tok toks) =
    Some (resolved_args (parse w tok toks c),
          fst (handler w s (resolved_args (parse w tok toks c))))"
  by (cases rule: Wrapper_call_cases [OF assms(1), of toks s]) (use assms(2) in simp_all)

lemma Command_parts_greet:
  "Command_parts ''greet once|n-times [<n>]'' =
     (Part_init ''greet'', [Part_init ''once|n-times'', Part_init ''[<n>]''])"
  by (simp add: Command_parts_def is_space_def)

lemma greet_command:
  "Part_match (command (Wrapper_init ''greet once|n-times [<n>]'' h)) ''greet'' =
     Inr (Argument ''greet'' None)"
  by (simp add: Wrapper_init_def Command_parts_greet Part_match_def Part_init_def
      Part_enclosed_def)

lemma greet_parse:
  "parse (Wrapper_init ''greet once|n-times [<n>]'' h) ''greet'' [''n-times'', ''5'']
     (Argument ''greet'' None) =
   \<lparr>fr_first_exception = None, fr_badness = 9995,
    resolved_args = [Argument ''n-times'' None, Argument ''5'' (Some ''n'')],
    user_arg = None, user_args_index = 2, logged = []\<rparr>"
  by code_simp

text \<open>
  Claim C7, as amended. When a call returns \<^verbatim>\<open>True\<close>, the handler was called with
  the command's own value, included exactly when the command part has a free option
  or is optional, followed by exactly one value for each argument part, in order: the
  value that part gives on the string it holds, which is the user token it took, or
  the empty string for an optional part that was skipped. The values that are not
  empty are the user tokens, all of them, in order. For the syntax
  \<^verbatim>\<open>greet once|n-times [<n>]\<close> and the input \<^verbatim>\<open>greet n-times 5\<close> the handler
  is called with \<^verbatim>\<open>n-times\<close> and \<^verbatim>\<open>5\<close>, the latter under the name \<^verbatim>\<open>n\<close>.
\<close>

theorem handler_receives_one_value_per_part:
  "(result (Wrapper_call w s tok toks) = Matched \<longrightarrow>
      (\<exists>c ys. Part_match (command w) tok = Inr c \<and>
         invoked (Wrapper_call w s tok toks) =
           Some ((if free_name (command w) \<noteq> [] \<or> \<not> mandatory (command w) then [c] else [])
                 @ ys, Returned) \<and>
         list_all2 (\<lambda>p y. Part_match p (arg_value y) = Inr y) (args w) ys \<and>
         map arg_value (filter truthy ys) = toks)) \<and>
   map_option fst
     (invoked (Wrapper_call (Wrapper_init ''greet once|n-times [<n>]'' h) s' ''greet''
        [''n-times'', ''5''])) =
     Some [Argument ''n-times'' None, Argument ''5'' (Some ''n'')]"
proof
  show "result (Wrapper_call w s tok toks) = Matched \<longrightarrow>
      (\<exists>c ys. Part_match (command w) tok = Inr c \<and>
         invoked (Wrapper_call w s tok toks) =
           Some ((if free_name (command w) \<noteq> [] \<or> \<not> mandatory (command w) then [c] else [])
                 @ ys, Returned) \<and>
         list_all2 (\<lambda>p y. Part_match p (arg_value y) = Inr y) (args w) ys \<and>
         map arg_value (filter truthy ys) = toks)"
  proof
    assume "result (Wrapper_call w s tok toks) = Matched"
    then obtain c where c: "Part_match (command w) tok = Inr c"
      "logged (parse w tok toks c) = []"
        "invoked (Wrapper_call w s tok toks) = Some (resolved_args (parse w tok toks c), Returned)"
      by (rule Wrapper_call_Matched)
    from parse_success [OF c(2)] obtain ys where
      ys: "resolved_args (parse w tok toks c) = resolved_args (seed w tok c) @ ys"
        "list_all2 (\<lambda>p y. Part_match p (arg_value y) = Inr y) (args w) ys"
        "map arg_value (filter truthy ys) = toks"
      by blast
    have "resolved_args (seed w tok c) =
        (if free_name (command w) \<noteq> [] \<or> \<not> mandatory (command w) then [c] else [])"
      by (simp add: seed_def)
    with c ys have "Part_match (command w) tok = Inr c \<and>
         invoked (Wrapper_call w s tok toks) =
           Some ((if free_name (command w) \<noteq> [] \<or> \<not> mandatory (command w) then [c] else [])
                 @ ys, Returned) \<and>
         list_all2 (\<lambda>p y. Part_match p (arg_value y) = Inr y) (args w) ys \<and>
         map arg_value (filter truthy ys) = toks"
      by simp
    then show "\<exists>c ys. Part_match (command w) tok = Inr c \<and>
         invoked (Wrapper_call w s tok toks) =
           Some ((if free_name (command w) \<noteq> [] \<or> \<not> mandatory (command w) then [c] else [])
                 @ ys, Returned) \<and>
         list_all2 (\<lambda>p y. Part_match p (arg_value y) = Inr y) (args w) ys \<and>
         map arg_value (filter truthy ys) = toks"
      by blast
  qed
next
  show "map_option fst
     (invoked (Wrapper_call (Wrapper_init ''greet once|n-times [<n>]'' h) s' ''greet''
        [''n-times'', ''5''])) =
     Some [Argument ''n-times'' None, Argument ''5'' (Some ''n'')]"
    using invoked_when_parsed [OF greet_command, of h "[''n-times'', ''5'']" s']
    by (simp add: greet_parse)
qed

text \<open>
  The claim C7 as it was stated fails: on the input \<^verbatim>\<open>greet once\<close> the optional
  part \<^verbatim>\<open>[<n>]\<close> takes no token, and still the handler receives a second value,
  the empty string.
\<close>

theorem skipped_part_passes_empty_value:
  "result (Wrapper_call (Wrapper_init ''greet once|n-times [<n>]'' accepting) () ''greet''
      [''once'']) = Matched \<and>
   invoked (Wrapper_call (Wrapper_init ''greet once|n-times [<n>]'' accepting) () ''greet''
      [''once'']) = Some ([Argument ''once'' None, Argument [] None], Returned)"
  by code_simp

theorem handler_receives_one_value_per_part_witness:
  "\<exists>c ys. Part_match (command (Wrapper_init ''greet once|n-times [<n>]'' accepting)) ''greet'' =
       Inr c \<and>
     invoked (Wrapper_call (Wrapper_init ''greet once|n-times [<n>]'' accepting) () ''greet''
        [''once'']) = Some (ys, Returned) \<and>
     list_all2 (\<lambda>p y. Part_match p (arg_value y) = Inr y)
       (args (Wrapper_init ''greet once|n-times [<n>]'' accepting)) ys \<and>
     map arg_value (filter truthy ys) = [''once'']"
proof -
  have m: "result (Wrapper_call (Wrapper_init ''greet once|n-times [<n>]'' accepting) () ''greet''
      [''once'']) = Matched"
    by code_simp
  have f: "\<not> (free_name (command (Wrapper_init ''greet once|n-times [<n>]'' accepting)) \<noteq> [] \<or>
      \<not> mandatory (command (Wrapper_init ''greet once|n-times [<n>]'' accepting)))"
    by code_simp
  let ?w = "Wrapper_init ''greet once|n-times [<n>]'' accepting"
  have "\<exists>c ys. Part_match (command ?w) ''greet'' = Inr c \<and>
      invoked (Wrapper_call ?w () ''greet'' [''once'']) =
        Some ((if free_name (command ?w) \<noteq> [] \<or> \<not> mandatory (command ?w) then [c] else [])
              @ ys, Returned) \<and>
      list_all2 (\<lambda>p y. Part_match p (arg_value y) = Inr y) (args ?w) ys \<and>
      map arg_value (filter truthy ys) = [''once'']"
    using m handler_receives_one_value_per_part
      [of ?w "()" "''greet''" "[''once'']" accepting "()"]
    by blast
  then show ?thesis
    unfolding if_not_P [OF f] append_Nil by blast
qed

section \<open>Ranking of failed calls\<close>

lemma taken_le: "buffer_ok toks fr \<Longrightarrow> taken fr \<le> length toks"
  by (auto simp: buffer_ok_def taken_def split: option.splits)

lemma walk_accounting:
  assumes "buffer_ok toks fr"
  shows "length (filter truthy (resolved_args (walk ps toks fr))) +
      length (filter is_invalid_option (logged (walk ps toks fr))) + taken fr =
    length (filter truthy (resolved_args fr)) +
      length (filter is_invalid_option (logged fr)) + taken (walk ps toks fr)"
proof -
  let ?P = "\<lambda>fr'. buffer_ok toks fr' \<and>
      length (filter truthy (resolved_args fr')) +
        length (filter is_invalid_option (logged fr')) + taken fr =
      length (filter truthy (resolved_args fr)) +
        length (filter is_invalid_option (logged fr)) + taken fr'"
  have "?P (walk ps toks fr)"
  proof (rule walk_invariant [where P = ?P])
    show "?P fr" using assms by simp
  next
    fix fr' :: frame and p
    assume "?P fr'"
    then have ok: "buffer_ok toks (pull toks fr')" and eq: "length (filter truthy (resolved_args fr')) +
        length (filter is_invalid_option (logged fr')) + taken fr =
      length (filter truthy (resolved_args fr)) +
        length (filter is_invalid_option (logged fr)) + taken (pull toks fr')"
      by (simp_all add: buffer_ok_pull taken_pull)
    have "buffer_ok toks (Wrapper_log_exception (pull toks fr') (MissingMandatory_init p))"
      by (rule buffer_ok_same [OF ok]) simp_all
    moreover have "taken (Wrapper_log_exception (pull toks fr') (MissingMandatory_init p)) =
        taken (pull toks fr')"
      by (rule taken_same) simp_all
    ultimately show "?P (Wrapper_log_exception (pull toks fr') (MissingMandatory_init p))"
      using eq by simp
  next
    fix fr' :: frame and p e
    assume P: "?P fr'" and c: "user_arg (pull toks fr') \<noteq> None \<or> \<not> mandatory p"
      and m: "Part_match p (or_empty (user_arg (pull toks fr'))) = Inl e"
    from P have ok: "buffer_ok toks (pull toks fr')" and eq: "length (filter truthy (resolved_args fr')) +
        length (filter is_invalid_option (logged fr')) + taken fr =
      length (filter truthy (resolved_args fr)) +
        length (filter is_invalid_option (logged fr)) + taken (pull toks fr')"
      by (simp_all add: buffer_ok_pull taken_pull)
    let ?fr2 = "(Wrapper_log_exception (pull toks fr') e)\<lparr>user_arg := None\<rparr>"
    from c Part_match_Inl_mandatory [OF m] obtain t where t: "user_arg (pull toks fr') = Some t"
      by auto
    have e: "is_invalid_option e" using Part_match_Inl_eq [OF m] by simp
    have "buffer_ok toks ?fr2" by (rule buffer_ok_clear [OF ok]) simp_all
    moreover have "taken ?fr2 = Suc (taken (pull toks fr'))"
      using taken_clear [OF ok t, of ?fr2] by simp
    ultimately show "?P ?fr2" using eq e by simp
  next
    fix fr' :: frame and p a
    assume P: "?P fr'"
      and m: "Part_match p (or_empty (user_arg (pull toks fr'))) = Inr a" "arg_value a \<noteq> []"
    from P have ok: "buffer_ok toks (pull toks fr')" and eq: "length (filter truthy (resolved_args fr')) +
        length (filter is_invalid_option (logged fr')) + taken fr =
      length (filter truthy (resolved_args fr)) +
        length (filter is_invalid_option (logged fr)) + taken (pull toks fr')"
      by (simp_all add: buffer_ok_pull taken_pull)
    let ?fr2 = "(pull toks fr')\<lparr>resolved_args := resolved_args (pull toks fr') @ [a],
        user_arg := None, fr_badness := fr_badness (pull toks fr') - 1\<rparr>"
    have t: "user_arg (pull toks fr') = Some (arg_value a)"
      by (rule match_truthy_buffered [OF m])
    have "buffer_ok toks ?fr2" by (rule buffer_ok_clear [OF ok]) simp_all
    moreover have "taken ?fr2 = Suc (taken (pull toks fr'))"
      using taken_clear [OF ok t, of ?fr2] by simp
    ultimately show "?P ?fr2" using eq m(2) by (simp add: truthy_def)
  next
    fix fr' :: frame and p a
    assume P: "?P fr'"
      and m: "Part_match p (or_empty (user_arg (pull toks fr'))) = Inr a" "arg_value a = []"
    from P have ok: "buffer_ok toks (pull toks fr')" and eq: "length (filter truthy (resolved_args fr')) +
        length (filter is_invalid_option (logged fr')) + taken fr =
      length (filter truthy (resolved_args fr)) +
        length (filter is_invalid_option (logged fr)) + taken (pull toks fr')"
      by (simp_all add: buffer_ok_pull taken_pull)
    let ?fr2 = "(pull toks fr')\<lparr>resolved_args := resolved_args (pull toks fr') @ [a]\<rparr>"
    have "buffer_ok toks ?fr2" by (rule buffer_ok_same [OF ok]) simp_all
    moreover have "taken ?fr2 = taken (pull toks fr')"
      by (rule taken_same) simp_all
    ultimately show "?P ?fr2" using eq m(2) by (simp add: truthy_def)
  qed
  then show ?thesis by simp
qed

lemma walk_badness:
  "fr_badness (walk ps toks fr) + int (length (filter truthy (resolved_args (walk ps toks fr)))) =
   fr_badness fr + int (length (filter truthy (resolved_args fr)))"
  by (rule walk_invariant [where P = "\<lambda>fr'. fr_badness fr' + int (length (filter truthy (resolved_args fr'))) =
        fr_badness fr + int (length (filter truthy (resolved_args fr)))"])
    (simp_all add: truthy_def)

lemma walk_weights:
  assumes "list_all (\<lambda>e. 3 \<le> badness e \<and> badness e \<le> 4) (logged fr)"
  shows "list_all (\<lambda>e. 3 \<le> badness e \<and> badness e \<le> 4) (logged (walk ps toks fr))"
proof (rule walk_invariant [where P = "\<lambda>fr'. list_all (\<lambda>e. 3 \<le> badness e \<and> badness e \<le> 4) (logged fr')"])
  fix fr' :: frame and p e
  assume "list_all (\<lambda>e. 3 \<le> badness e \<and> badness e \<le> 4) (logged fr')"
    and "Part_match p (or_empty (user_arg (pull toks fr'))) = Inl e"
  then show "list_all (\<lambda>e. 3 \<le> badness e \<and> badness e \<le> 4)
      (logged ((Wrapper_log_exception (pull toks fr') e)\<lparr>user_arg := None\<rparr>))"
    using Part_match_Inl_eq [of p "or_empty (user_arg (pull toks fr'))" e]
    by (simp add: InvalidOption_init_def)
qed (use assms in \<open>simp_all add: MissingMandatory_init_def\<close>)

lemma after_walk_simps [simp]:
  "resolved_args (after_walk toks fr) = resolved_args fr"
  "fr_badness (after_walk toks fr) = fr_badness fr"
  by (simp_all add: after_walk_def split: option.splits)

lemma parse_weights: "list_all (\<lambda>e. 3 \<le> badness e \<and> badness e \<le> 4) (logged (parse w tok toks c))"
proof -
  let ?fr = "walk (args w) toks (seed w tok c)"
  have "list_all (\<lambda>e. 3 \<le> badness e \<and> badness e \<le> 4) (logged ?fr)"
    by (rule walk_weights) (simp add: seed_def)
  then show ?thesis
    by (simp add: parse_def after_walk_logged [OF walk_buffer_ok [OF buffer_ok_seed]]
        Redundant_init_def)
qed

lemma walk_resolved_grows: "\<exists>ys. resolved_args (walk ps toks fr) = resolved_args fr @ ys"
  by (rule walk_invariant [where P = "\<lambda>fr'. \<exists>ys. resolved_args fr' = resolved_args fr @ ys"])
    auto

lemma seed_le_parse:
  "length (filter truthy (resolved_args (seed w tok c))) \<le>
   length (filter truthy (resolved_args (parse w tok toks c)))"
  using walk_resolved_grows [of "args w" toks "seed w tok c"] by (auto simp: parse_def)

lemma parse_badness:
  "fr_badness (parse w tok toks c) =
     wbadness w - (if tok \<in> set (options (command w)) then 3 else 0) -
     int (matched_tokens w tok toks c)"
proof -
  have "fr_badness (seed w tok c) =
      wbadness w - (if tok \<in> set (options (command w)) then 3 else 0)"
    by (simp add: seed_def)
  then show ?thesis
    using walk_badness [of "args w" toks "seed w tok c"] seed_le_parse [of w tok c toks]
    by (simp add: matched_tokens_def parse_def)
qed

lemma matched_tokens_le: "matched_tokens w tok toks c \<le> length toks"
proof -
  let ?fr = "walk (args w) toks (seed w tok c)"
  have 0: "taken (seed w tok c) = 0" "logged (seed w tok c) = []"
    by (simp_all add: taken_def seed_def)
  have ok: "buffer_ok toks ?fr" by (rule walk_buffer_ok [OF buffer_ok_seed])
  have "taken ?fr \<le> length toks" by (rule taken_le [OF ok])
  moreover have "length (filter truthy (resolved_args ?fr)) +
      length (filter is_invalid_option (logged ?fr)) + taken (seed w tok c) =
    length (filter truthy (resolved_args (seed w tok c))) +
      length (filter is_invalid_option (logged (seed w tok c))) + taken ?fr"
    by (rule walk_accounting [OF buffer_ok_seed])
  ultimately show ?thesis
    using 0 by (simp add: matched_tokens_def parse_def)
qed

lemma matched_tokens_all:
  assumes "logged (parse w tok toks c) = []"
  shows "matched_tokens w tok toks c = length toks"
proof -
  from parse_success [OF assms] obtain ys where
    ys: "resolved_args (parse w tok toks c) = resolved_args (seed w tok c) @ ys"
      "map arg_value (filter truthy ys) = toks"
    by blast
  have "length (filter truthy ys) = length toks"
    using arg_cong [OF ys(2), of length] by simp
  then show ?thesis by (simp add: matched_tokens_def ys(1))
qed

text \<open>
  Claim C9. After the loop over the argument parts, with \<open>n\<close> the number of user
  tokens used up: if a token is left, waiting in \<^verbatim>\<open>user_arg\<close> or not yet pulled
  (which is to say \<open>n\<close> is less than the number of tokens), then exactly one
  \<^verbatim>\<open>_Redundant\<close> exception is among those logged, it is the one of the token at
  position \<open>n\<close>, the first not used, and its badness is 4; if no token is left, no
  \<^verbatim>\<open>_Redundant\<close> exception is logged. The tokens used up are those matched by an
  argument part and those passed over with an \<^verbatim>\<open>_InvalidOption\<close>.
\<close>

theorem one_redundant_for_first_surplus:
  "filter is_redundant (logged (parse w tok toks c)) =
     (if taken (walk (args w) toks (seed w tok c)) < length toks then
        [Redundant_init (toks ! taken (walk (args w) toks (seed w tok c)))]
      else []) \<and>
   (taken (walk (args w) toks (seed w tok c)) < length toks \<longleftrightarrow>
      user_arg (walk (args w) toks (seed w tok c)) \<noteq> None \<or>
      user_args_index (walk (args w) toks (seed w tok c)) < length toks) \<and>
   taken (walk (args w) toks (seed w tok c)) =
     matched_tokens w tok toks c +
     length (filter is_invalid_option (logged (walk (args w) toks (seed w tok c)))) \<and>
   err_class (Redundant_init v) = Redundant v \<and> badness (Redundant_init v) = 4"
proof -
  let ?fr = "walk (args w) toks (seed w tok c)"
  have ok: "buffer_ok toks ?fr"
    by (rule walk_buffer_ok [OF buffer_ok_seed])
  have "filter is_redundant (logged ?fr) = []"
    by (rule walk_no_redundant) (simp add: seed_def)
  then have 1: "filter is_redundant (logged (parse w tok toks c)) =
      (if taken ?fr < length toks then [Redundant_init (toks ! taken ?fr)] else [])"
    by (simp add: parse_def after_walk_logged [OF ok])
  have 0: "taken (seed w tok c) = 0" "logged (seed w tok c) = []"
    by (simp_all add: taken_def seed_def)
  have "length (filter truthy (resolved_args ?fr)) +
      length (filter is_invalid_option (logged ?fr)) + taken (seed w tok c) =
    length (filter truthy (resolved_args (seed w tok c))) +
      length (filter is_invalid_option (logged (seed w tok c))) + taken ?fr"
    by (rule walk_accounting [OF buffer_ok_seed])
  then have 2: "taken ?fr =
      matched_tokens w tok toks c + length (filter is_invalid_option (logged ?fr))"
    using 0 seed_le_parse [of w tok c toks] by (simp add: matched_tokens_def parse_def)
  show ?thesis
    using 1 2 taken_less_iff [OF ok] by (simp add: Redundant_init_def)
qed

theorem one_redundant_for_first_surplus_witness:
  "filter is_redundant
     (logged (parse (Wrapper_init ''set <k>'' accepting) ''set'' [''a'', ''b'', ''c'']
        (Argument ''set'' None))) =
   [Redundant_init ''b'']"
proof -
  have t: "taken (walk (args (Wrapper_init ''set <k>'' accepting)) [''a'', ''b'', ''c'']
      (seed (Wrapper_init ''set <k>'' accepting) ''set'' (Argument ''set'' None))) = 1"
    by code_simp
  show ?thesis
    using one_redundant_for_first_surplus [of "Wrapper_init ''set <k>'' accepting" "''set''"
        "[''a'', ''b'', ''c'']" "Argument ''set'' None" "[]"]
    unfolding t by simp
qed

lemma raised_weight:
  assumes "Part_match (command w) tok = Inr c"
    and "result (Wrapper_call w s tok toks) = Raised e"
  shows "errors_logged (Wrapper_call w s tok toks) \<noteq> [] \<and>
    badness e =
      Max (badness ` set (errors_logged (Wrapper_call w s tok toks))) + wbadness w -
      (if tok \<in> set (options (command w)) then 3 else 0) - int (matched_tokens w tok toks c)"
proof -
  let ?r = "Wrapper_call w s tok toks"
  have "errors_logged ?r \<noteq> [] \<and>
      badness e = Max (badness ` set (errors_logged ?r)) + fr_badness (parse w tok toks c)"
  proof (cases rule: Wrapper_call_cases [OF assms(1), of toks s])
    case 1
    then show ?thesis
      using assms(2) by (auto simp: result_finish [OF parse_representative])
  next
    case (2 s')
    then show ?thesis
      using assms(2) by (auto simp: result_finish [OF parse_representative])
  next
    case (3 e' s')
    have "fr_first_exception (Wrapper_log_exception (parse w tok toks c) e') =
        representative (logged (Wrapper_log_exception (parse w tok toks c) e'))"
      by (rule log_exception_representative [OF parse_representative])
    then show ?thesis
      using assms(2) 3 by (auto simp: result_finish)
  qed
  then show ?thesis by (simp add: parse_badness)
qed

lemma Max_bounds:
  fixes es :: "parsing_error list"
  assumes "es \<noteq> []" "list_all (\<lambda>e. lo \<le> badness e \<and> badness e \<le> hi) es"
  shows "lo \<le> Max (badness ` set es) \<and> Max (badness ` set es) \<le> hi"
proof -
  have "finite (badness ` set es)" "badness ` set es \<noteq> {}" using assms(1) by simp_all
  moreover have "\<forall>x \<in> badness ` set es. lo \<le> x \<and> x \<le> hi"
    using assms(2) by (auto simp: list_all_iff)
  ultimately show ?thesis
    by (meson Max_in)
qed

text \<open>
  Claim C3, as amended. Two wrappers whose badness counters both hold the initial
  constant are called on the same input, both command parts accept the first token,
  and both calls raise. If the first wrapper matches strictly more argument tokens
  than the second, the first token is one of the first wrapper's hard-coded options
  whenever it is one of the second's, and an exception raised by the first wrapper's
  handler has a badness of at most 4 (as those of the module's classes have), then the
  badness of the exception the first wrapper raises is at most that of the second's.
\<close>

theorem more_tokens_rank_lower:
  assumes "Part_match (command wa) tok = Inr ca" and "Part_match (command wb) tok = Inr cb"
    and "wbadness wa = INITIAL_BADNESS" and "wbadness wb = INITIAL_BADNESS"
    and "result (Wrapper_call wa sa tok toks) = Raised ea"
    and "result (Wrapper_call wb sb tok toks) = Raised eb"
    and "matched_tokens wb tok toks cb < matched_tokens wa tok toks ca"
    and "tok \<in> set (options (command wb)) \<longrightarrow> tok \<in> set (options (command wa))"
    and "\<forall>e. fst (handler wa sa (resolved_args (parse wa tok toks ca))) = HandlerRaised e \<longrightarrow>
           badness e \<le> 4"
  shows "badness ea \<le> badness eb"
proof -
  let ?ra = "Wrapper_call wa sa tok toks" and ?rb = "Wrapper_call wb sb tok toks"
  have a: "errors_logged ?ra \<noteq> []" "badness ea =
      Max (badness ` set (errors_logged ?ra)) + INITIAL_BADNESS -
      (if tok \<in> set (options (command wa)) then 3 else 0) - int (matched_tokens wa tok toks ca)"
    using raised_weight [OF assms(1,5)] assms(3) by simp_all
  have b: "errors_logged ?rb \<noteq> []" "badness eb =
      Max (badness ` set (errors_logged ?rb)) + INITIAL_BADNESS -
      (if tok \<in> set (options (command wb)) then 3 else 0) - int (matched_tokens wb tok toks cb)"
    using raised_weight [OF assms(2,6)] assms(4) by simp_all
  have ma: "Max (badness ` set (errors_logged ?ra)) \<le> 4"
  proof (cases rule: Wrapper_call_cases [OF assms(1), of toks sa])
    case 1
    then show ?thesis
      using Max_bounds [OF 1(1) parse_weights [of wa tok toks ca]] by simp
  next
    case (2 s')
    then show ?thesis using a(1) by simp
  next
    case (3 e s')
    then show ?thesis using assms(9) by simp
  qed
  have mb: "3 \<le> Max (badness ` set (errors_logged ?rb))"
  proof (cases rule: Wrapper_call_cases [OF assms(2), of toks sb])
    case 1
    then show ?thesis
      using Max_bounds [OF 1(1) parse_weights [of wb tok toks cb]] by simp
  next
    case (2 s')
    then show ?thesis using b(1) by simp
  next
    case (3 e s')
    then show ?thesis
      using matched_tokens_all [OF 3(1)] matched_tokens_le [of wa tok toks ca] assms(7) by simp
  qed
  show ?thesis
    using ma mb assms(7,8) unfolding a(2) b(2) by (auto split: if_splits)
qed

text \<open>
  The claim C3 as it was stated fails: on the input \<^verbatim>\<open>set k\<close> the syntax
  \<^verbatim>\<open><n> <k> <v>\<close> matches the token \<^verbatim>\<open>k\<close> and the syntax \<^verbatim>\<open>set a|b\<close> matches
  no argument token, and yet the first raises the larger badness: the second has the
  command as a hard-coded option, which lowers its counter by 3.
\<close>

theorem more_tokens_higher_weight:
  "matched_tokens (Wrapper_init ''set a|b'' accepting) ''set'' [''k''] (Argument ''set'' None) <
     matched_tokens (Wrapper_init ''<n> <k> <v>'' accepting) ''set'' [''k'']
       (Argument ''set'' (Some ''n'')) \<and>
   Part_match (command (Wrapper_init ''<n> <k> <v>'' accepting)) ''set'' =
     Inr (Argument ''set'' (Some ''n'')) \<and>
   Part_match (command (Wrapper_init ''set a|b'' accepting)) ''set'' =
     Inr (Argument ''set'' None) \<and>
   result (Wrapper_call (Wrapper_init ''<n> <k> <v>'' accepting) () ''set'' [''k'']) =
     Raised (ParsingError (MissingMandatory (Part_init ''<v>''))
       (message (MissingMandatory_init (Part_init ''<v>''))) 10003) \<and>
   result (Wrapper_call (Wrapper_init ''set a|b'' accepting) () ''set'' [''k'']) =
     Raised (ParsingError (InvalidOption (Part_init ''a|b'') ''k'')
       (message (InvalidOption_init (Part_init ''a|b'') ''k'')) 10000) \<and>
   \<not> (10003 :: int) \<le> 10000"
  by code_simp

theorem more_tokens_rank_lower_witness:
  "result (Wrapper_call (Wrapper_init ''set <k> <v> <z>'' accepting) () ''set'' [''k'', ''x'']) =
     Raised (ParsingError (MissingMandatory (Part_init ''<z>''))
       (message (MissingMandatory_init (Part_init ''<z>''))) 9999) \<and>
   result (Wrapper_call (Wrapper_init ''set a|b'' accepting) () ''set'' [''k'', ''x'']) =
     Raised (ParsingError (InvalidOption (Part_init ''a|b'') ''k'')
       (message (InvalidOption_init (Part_init ''a|b'') ''k'')) 10001) \<and>
   (9999 :: int) \<le> 10001"
proof -
  let ?wa = "Wrapper_init ''set <k> <v> <z>'' accepting :: unit wrapper"
  let ?wb = "Wrapper_init ''set a|b'' accepting :: unit wrapper"
  let ?ea = "ParsingError (MissingMandatory (Part_init ''<z>''))
       (message (MissingMandatory_init (Part_init ''<z>''))) 9999"
  let ?eb = "ParsingError (InvalidOption (Part_init ''a|b'') ''k'')
       (message (InvalidOption_init (Part_init ''a|b'') ''k'')) 10001"
  have ca: "Part_match (command ?wa) ''set'' = Inr (Argument ''set'' None)"
    by code_simp
  have cb: "Part_match (command ?wb) ''set'' = Inr (Argument ''set'' None)"
    by code_simp
  have fa: "wbadness ?wa = INITIAL_BADNESS" and fb: "wbadness ?wb = INITIAL_BADNESS"
    by (simp_all add: Wrapper_init_def)
  have ra: "result (Wrapper_call ?wa () ''set'' [''k'', ''x'']) = Raised ?ea"
    by code_simp
  have rb: "result (Wrapper_call ?wb () ''set'' [''k'', ''x'']) = Raised ?eb"
    by code_simp
  have lt: "matched_tokens ?wb ''set'' [''k'', ''x''] (Argument ''set'' None) <
      matched_tokens ?wa ''set'' [''k'', ''x''] (Argument ''set'' None)"
    by code_simp
  have lit: "''set'' \<in> set (options (command ?wb)) \<longrightarrow> ''set'' \<in> set (options (command ?wa))"
    by code_simp
  have hb: "\<forall>e. fst (handler ?wa () (resolved_args (parse ?wa ''set'' [''k'', ''x'']
      (Argument ''set'' None)))) = HandlerRaised e \<longrightarrow> badness e \<le> 4"
    by (simp add: Wrapper_init_def accepting_def)
  have "badness ?ea \<le> badness ?eb"
    by (rule more_tokens_rank_lower [OF ca cb fa fb ra rb lt lit hb])
  then show ?thesis using ra rb by simp
qed

section \<open>The badness counter across calls\<close>

text \<open>
  Claim C2 fails on the code. \<^verbatim>\<open>_Wrapper.__call__\<close> sets \<^verbatim>\<open>_first_exception\<close>
  to \<^verbatim>\<open>None\<close> on entry but never assigns the initial constant to
  \<^verbatim>\<open>_badness\<close>: a fresh wrapper of \<^verbatim>\<open>set <k> <v>\<close> called twice on
  \<^verbatim>\<open>set a\<close> leaves the counter at 9996 after the first call, starts the second
  call from there, and raises the same exception with badness 10000 the first time
  and 9996 the second time.
\<close>

theorem badness_not_reset:
  "wbadness (self_after (Wrapper_call (Wrapper_init ''set <k> <v>'' accepting) () ''set''
      [''a''])) = 9996 \<and>
   result (Wrapper_call (Wrapper_init ''set <k> <v>'' accepting) () ''set'' [''a'']) =
     Raised (ParsingError (MissingMandatory (Part_init ''<v>''))
       (message (MissingMandatory_init (Part_init ''<v>''))) 10000) \<and>
   result (Wrapper_call
      (self_after (Wrapper_call (Wrapper_init ''set <k> <v>'' accepting) () ''set'' [''a'']))
      () ''set'' [''a'']) =
     Raised (ParsingError (MissingMandatory (Part_init ''<v>''))
       (message (MissingMandatory_init (Part_init ''<v>''))) 9996)"
  by code_simp

section \<open>The loop over the commands\<close>

lemma result_NotCandidate_iff:
  "result (Wrapper_call w s tok toks) = NotCandidate \<longleftrightarrow> \<not> candidate w tok"
  by (cases "Part_match (command w) tok")
    (simp_all add: candidate_def Wrapper_call_not_candidate Wrapper_call_candidate)

lemma invoked_not_candidate:
  "\<not> candidate w tok \<Longrightarrow> invoked (Wrapper_call w s tok toks) = None"
  by (cases "Part_match (command w) tok")
    (simp_all add: candidate_def Wrapper_call_not_candidate)

lemma invoked_Matched:
  assumes "result (Wrapper_call w s tok toks) = Matched"
  shows "\<exists>xs. invoked (Wrapper_call w s tok toks) = Some (xs, Returned)"
  using Wrapper_call_Matched [OF assms] by metis

lemma invoke_event_cases:
  "invoke_event i r = [] \<or> (\<exists>xs oc. invoke_event i r = [Invoke i xs oc])"
  by (simp add: invoke_event_def split: option.splits prod.splits)

lemma invoke_event_Raised:
  assumes "result (Wrapper_call w s tok toks) = Raised e"
  shows "invoke_event i (Wrapper_call w s tok toks) = [] \<or>
    (\<exists>xs e'. invoke_event i (Wrapper_call w s tok toks) = [Invoke i xs (HandlerRaised e')])"
proof (cases "Part_match (command w) tok")
  case (Inl e')
  then show ?thesis by (simp add: Wrapper_call_not_candidate invoke_event_def)
next
  case (Inr c)
  show ?thesis
  proof (cases rule: Wrapper_call_cases [OF Inr, of toks s])
    case 1
    then show ?thesis by (simp add: invoke_event_def)
  next
    case (2 s')
    then show ?thesis
      using assms by (simp add: result_finish [OF parse_representative])
  next
    case (3 e' s')
    then show ?thesis by (simp add: invoke_event_def)
  qed
qed

lemma try_commands_Cons_Matched:
  "result (Wrapper_call cw a (hd toks) (tl toks)) = Matched \<Longrightarrow>
   try_commands (cw # rest) i toks a =
     \<lparr>found = True, wrappers_after = self_after (Wrapper_call cw a (hd toks) (tl toks)) # rest,
      loop_app = app_after (Wrapper_call cw a (hd toks) (tl toks)),
      logged_exceptions = [],
      events = invoke_event i (Wrapper_call cw a (hd toks) (tl toks))\<rparr>"
  by (simp add: Let_def)

lemma try_commands_Cons_NotCandidate:
  "result (Wrapper_call cw a (hd toks) (tl toks)) = NotCandidate \<Longrightarrow>
   try_commands (cw # rest) i toks a =
     (try_commands rest (Suc i) toks (app_after (Wrapper_call cw a (hd toks) (tl toks))))
       \<lparr>wrappers_after := self_after (Wrapper_call cw a (hd toks) (tl toks)) #
          wrappers_after (try_commands rest (Suc i) toks
            (app_after (Wrapper_call cw a (hd toks) (tl toks)))),
        events := invoke_event i (Wrapper_call cw a (hd toks) (tl toks)) @
          events (try_commands rest (Suc i) toks
            (app_after (Wrapper_call cw a (hd toks) (tl toks))))\<rparr>"
  by (simp add: Let_def)

lemma try_commands_Cons_Raised:
  "result (Wrapper_call cw a (hd toks) (tl toks)) = Raised e \<Longrightarrow>
   try_commands (cw # rest) i toks a =
     (try_commands rest (Suc i) toks (app_after (Wrapper_call cw a (hd toks) (tl toks))))
       \<lparr>wrappers_after := self_after (Wrapper_call cw a (hd toks) (tl toks)) #
          wrappers_after (try_commands rest (Suc i) toks
            (app_after (Wrapper_call cw a (hd toks) (tl toks)))),
        logged_exceptions := e #
          logged_exceptions (try_commands rest (Suc i) toks
            (app_after (Wrapper_call cw a (hd toks) (tl toks)))),
        events := invoke_event i (Wrapper_call cw a (hd toks) (tl toks)) @
          events (try_commands rest (Suc i) toks
            (app_after (Wrapper_call cw a (hd toks) (tl toks))))\<rparr>"
  by (simp add: Let_def)

declare try_commands.simps(2) [simp del]

lemma events_are_invokes:
  "ev \<in> set (events (try_commands ws i toks a)) \<Longrightarrow>
   \<exists>j ys oc. ev = Invoke j ys oc \<and> i \<le> j \<and> j < i + length ws"
proof (induction ws arbitrary: i a)
  case Nil
  then show ?case by simp
next
  case (Cons cw rest)
  let ?r = "Wrapper_call cw a (hd toks) (tl toks)"
  let ?l = "try_commands rest (Suc i) toks (app_after ?r)"
  have here: "ev \<in> set (invoke_event i ?r) \<Longrightarrow> \<exists>j ys oc. ev = Invoke j ys oc \<and> i \<le> j \<and> j < i + length (cw # rest)"
    using invoke_event_cases [of i ?r] by auto
  have later: "ev \<in> set (events ?l) \<Longrightarrow> \<exists>j ys oc. ev = Invoke j ys oc \<and> i \<le> j \<and> j < i + length (cw # rest)"
    using Cons.IH [of "Suc i" "app_after ?r"] by fastforce
  show ?case
  proof (cases "result ?r")
    case Matched
    then show ?thesis using Cons.prems here by (simp add: try_commands_Cons_Matched)
  next
    case NotCandidate
    then show ?thesis
      using Cons.prems here later by (auto simp: try_commands_Cons_NotCandidate)
  next
    case (Raised e)
    then show ?thesis
      using Cons.prems here later by (auto simp: try_commands_Cons_Raised)
  qed
qed

lemma try_commands_not_found:
  "\<not> found (try_commands ws i toks a) \<Longrightarrow>
   length (logged_exceptions (try_commands ws i toks a)) =
     length (filter (\<lambda>c. candidate c (hd toks)) ws) \<and>
   length (wrappers_after (try_commands ws i toks a)) = length ws"
proof (induction ws arbitrary: i a)
  case Nil
  then show ?case by simp
next
  case (Cons cw rest)
  let ?r = "Wrapper_call cw a (hd toks) (tl toks)"
  show ?case
  proof (cases "result ?r")
    case Matched
    then show ?thesis using Cons.prems by (simp add: try_commands_Cons_Matched)
  next
    case NotCandidate
    then show ?thesis
      using Cons.prems Cons.IH [of "Suc i" "app_after ?r"]
        result_NotCandidate_iff [of cw a "hd toks" "tl toks"]
      by (simp add: try_commands_Cons_NotCandidate)
  next
    case (Raised e)
    then show ?thesis
      using Cons.prems Cons.IH [of "Suc i" "app_after ?r"]
        result_NotCandidate_iff [of cw a "hd toks" "tl toks"]
      by (simp add: try_commands_Cons_Raised)
  qed
qed

lemma try_commands_found:
  "found (try_commands ws i toks a) \<Longrightarrow>
   \<exists>k xs evs. k < length ws \<and>
     events (try_commands ws i toks a) = evs @ [Invoke (i + k) xs Returned] \<and>
     (\<forall>ev \<in> set evs. \<exists>j ys e. ev = Invoke j ys (HandlerRaised e) \<and> i \<le> j \<and> j < i + k) \<and>
     candidate (ws ! k) (hd toks) \<and>
     length (logged_exceptions (try_commands ws i toks a)) =
       length (filter (\<lambda>c. candidate c (hd toks)) (take k ws)) \<and>
     drop (Suc k) (wrappers_after (try_commands ws i toks a)) = drop (Suc k) ws \<and>
     length (wrappers_after (try_commands ws i toks a)) = length ws"
proof (induction ws arbitrary: i a)
  case Nil
  then show ?case by simp
next
  case (Cons cw rest)
  let ?r = "Wrapper_call cw a (hd toks) (tl toks)"
  let ?l = "try_commands rest (Suc i) toks (app_after ?r)"
  let ?Q = "\<lambda>k xs evs. k < length (cw # rest) \<and>
     events (try_commands (cw # rest) i toks a) = evs @ [Invoke (i + k) xs Returned] \<and>
     (\<forall>ev \<in> set evs. \<exists>j ys e. ev = Invoke j ys (HandlerRaised e) \<and> i \<le> j \<and> j < i + k) \<and>
     candidate ((cw # rest) ! k) (hd toks) \<and>
     length (logged_exceptions (try_commands (cw # rest) i toks a)) =
       length (filter (\<lambda>c. candidate c (hd toks)) (take k (cw # rest))) \<and>
     drop (Suc k) (wrappers_after (try_commands (cw # rest) i toks a)) = drop (Suc k) (cw # rest) \<and>
     length (wrappers_after (try_commands (cw # rest) i toks a)) = length (cw # rest)"
  show ?case
  proof (cases "result ?r")
    case Matched
    from invoked_Matched [OF Matched] obtain xs where xs: "invoked ?r = Some (xs, Returned)"
      by blast
    have c: "candidate cw (hd toks)"
      using Matched result_NotCandidate_iff [of cw a "hd toks" "tl toks"] by auto
    have "?Q 0 xs []"
      using Matched xs c by (simp add: try_commands_Cons_Matched invoke_event_def)
    then show ?thesis by blast
  next
    case NotCandidate
    then have f: "found ?l" using Cons.prems by (simp add: try_commands_Cons_NotCandidate)
    from Cons.IH [OF f] obtain k xs evs where k: "k < length rest"
      "events ?l = evs @ [Invoke (Suc i + k) xs Returned]"
      "\<forall>ev \<in> set evs. \<exists>j ys e. ev = Invoke j ys (HandlerRaised e) \<and> Suc i \<le> j \<and> j < Suc i + k"
      "candidate (rest ! k) (hd toks)"
      "length (logged_exceptions ?l) = length (filter (\<lambda>c. candidate c (hd toks)) (take k rest))"
      "drop (Suc k) (wrappers_after ?l) = drop (Suc k) rest"
      "length (wrappers_after ?l) = length rest"
      by blast
    have nc: "\<not> candidate cw (hd toks)"
      using NotCandidate result_NotCandidate_iff [of cw a "hd toks" "tl toks"] by simp
    have e: "invoke_event i ?r = []"
      using invoked_not_candidate [OF nc, of a "tl toks"] by (simp add: invoke_event_def)
    have "\<forall>ev \<in> set evs. \<exists>j ys e. ev = Invoke j ys (HandlerRaised e) \<and> i \<le> j \<and> j < i + Suc k"
      using k(3) by fastforce
    then have "?Q (Suc k) xs evs"
      using NotCandidate k nc e by (simp add: try_commands_Cons_NotCandidate)
    then show ?thesis by blast
  next
    case (Raised e)
    then have f: "found ?l" using Cons.prems by (simp add: try_commands_Cons_Raised)
    from Cons.IH [OF f] obtain k xs evs where k: "k < length rest"
      "events ?l = evs @ [Invoke (Suc i + k) xs Returned]"
      "\<forall>ev \<in> set evs. \<exists>j ys e. ev = Invoke j ys (HandlerRaised e) \<and> Suc i \<le> j \<and> j < Suc i + k"
      "candidate (rest ! k) (hd toks)"
      "length (logged_exceptions ?l) = length (filter (\<lambda>c. candidate c (hd toks)) (take k rest))"
      "drop (Suc k) (wrappers_after ?l) = drop (Suc k) rest"
      "length (wrappers_after ?l) = length rest"
      by blast
    have c: "candidate cw (hd toks)"
      using Raised result_NotCandidate_iff [of cw a "hd toks" "tl toks"] by auto
    have "\<forall>ev \<in> set (invoke_event i ?r @ evs). \<exists>j ys e. ev = Invoke j ys (HandlerRaised e) \<and> i \<le> j \<and> j < i + Suc k"
      using k(3) invoke_event_Raised [OF Raised, of i] by fastforce
    then have "?Q (Suc k) xs (invoke_event i ?r @ evs)"
      using Raised k c by (simp add: try_commands_Cons_Raised)
    then show ?thesis by blast
  qed
qed

section \<open>The help fallback\<close>

lemma after_loop_simps [simp]:
  "help_search (after_loop w l) = help_search w"
  "out (after_loop w l) = out w @ events l"
  "command_list (after_loop w l) = wrappers_after l"
  "app (after_loop w l) = loop_app l"
  by (simp_all add: after_loop_def)

lemma resolve_found:
  "found (first_pass w line) \<Longrightarrow> resolve w line = after_loop w (first_pass w line)"
  unfolding first_pass_def by (subst resolve.simps) (simp add: Let_def)

lemma resolve_in_fallback:
  "help_search w \<Longrightarrow> \<not> found (first_pass w line) \<Longrightarrow>
   resolve w line =
     (after_loop w (first_pass w line))
       \<lparr>out := out w @ events (first_pass w line) @ [no_help_found]\<rparr>"
  unfolding first_pass_def by (subst resolve.simps) (simp add: Let_def)

lemma resolve_falls_back:
  "\<not> help_search w \<Longrightarrow> \<not> found (first_pass w line) \<Longrightarrow>
   resolve w line = (resolve (fallback_world w line) ''help'')\<lparr>help_search := False\<rparr>"
  unfolding first_pass_def fallback_world_def
  by (subst resolve.simps) (simp add: Let_def complaint_def first_pass_def)

lemma fallback_world_simps [simp]:
  "help_search (fallback_world w line)"
  "out (fallback_world w line) =
     out w @ events (first_pass w line) @
       complaint (user_list_of line) (logged_exceptions (first_pass w line)) @ [Fallback]"
  "command_list (fallback_world w line) = wrappers_after (first_pass w line)"
  "app (fallback_world w line) = loop_app (first_pass w line)"
  by (simp_all add: fallback_world_def)

lemma out_in_fallback:
  "help_search w \<Longrightarrow>
   out (resolve w line) =
     out w @ events (first_pass w line) @
       (if found (first_pass w line) then [] else [no_help_found])"
  by (simp add: resolve_found resolve_in_fallback)

lemma new_events_found:
  "found (first_pass w line) \<Longrightarrow> new_events w line = events (first_pass w line)"
  by (simp add: new_events_def resolve_found)

lemma new_events_in_fallback:
  "help_search w \<Longrightarrow>
   new_events w line =
     events (first_pass w line) @ (if found (first_pass w line) then [] else [no_help_found])"
  by (simp add: new_events_def out_in_fallback)

lemma new_events_falls_back:
  "\<not> help_search w \<Longrightarrow> \<not> found (first_pass w line) \<Longrightarrow>
   new_events w line =
     events (first_pass w line) @
       complaint (user_list_of line) (logged_exceptions (first_pass w line)) @ [Fallback] @
       events (first_pass (fallback_world w line) ''help'') @
       (if found (first_pass (fallback_world w line) ''help'') then [] else [no_help_found])"
  by (simp add: new_events_def resolve_falls_back out_in_fallback)

lemma help_search_resolve: "help_search (resolve w line) = help_search w"
proof (cases "found (first_pass w line)")
  case True
  then show ?thesis by (simp add: resolve_found)
next
  case False
  then show ?thesis
    by (cases "help_search w") (simp_all add: resolve_in_fallback resolve_falls_back)
qed

lemma Fallback_notin_events: "Fallback \<notin> set (events (try_commands ws i toks a))"
  using events_are_invokes [of Fallback ws i toks a] by auto

lemma Fallback_notin_first_pass [simp]: "Fallback \<notin> set (events (first_pass w line))"
  by (simp add: first_pass_def Fallback_notin_events)

lemma Fallback_notin_complaint [simp]: "Fallback \<notin> set (complaint ul es)"
  by (simp add: complaint_def print_exceptions_def Let_def)

lemma no_help_found_neq [simp]: "no_help_found \<noteq> Fallback" "Fallback \<noteq> no_help_found"
  by (simp_all add: no_help_found_def)

text \<open>
  Claim C6. A call of \<^verbatim>\<open>resolve\<close> that starts with \<^verbatim>\<open>_help_search\<close> set and
  finds no command that succeeds prints \<^verbatim>\<open>No additional help found.\<close> after the
  events of its loop and returns; no call that starts with \<^verbatim>\<open>_help_search\<close> set
  makes a recursive call. A call that starts with \<^verbatim>\<open>_help_search\<close> clear and finds
  no command that succeeds prints its complaint, makes one recursive call on
  \<^verbatim>\<open>help\<close>, which runs its loop and, if that fails too, prints the terminal message.
  So every call makes at most one recursive call, nested in no other, and
  \<^verbatim>\<open>_help_search\<close> is after the call what it was before: clear again after a fallback.
\<close>

theorem help_fallback_one_level:
  "(help_search w \<and> \<not> found (first_pass w line) \<longrightarrow>
      new_events w line = events (first_pass w line) @ [no_help_found]) \<and>
   (help_search w \<longrightarrow> Fallback \<notin> set (new_events w line)) \<and>
   (\<not> help_search w \<and> \<not> found (first_pass w line) \<longrightarrow>
      new_events w line =
        events (first_pass w line) @
        complaint (user_list_of line) (logged_exceptions (first_pass w line)) @ [Fallback] @
        events (first_pass (fallback_world w line) ''help'') @
        (if found (first_pass (fallback_world w line) ''help'') then [] else [no_help_found])) \<and>
   length (filter (\<lambda>ev. ev = Fallback) (new_events w line)) \<le> 1 \<and>
   help_search (resolve w line) = help_search w"
proof -
  have 1: "help_search w \<Longrightarrow> Fallback \<notin> set (new_events w line)"
    by (simp add: new_events_in_fallback)
  have 2: "length (filter (\<lambda>ev. ev = Fallback) (new_events w line)) \<le> 1"
  proof (cases "help_search w \<or> found (first_pass w line)")
    case True
    then have "Fallback \<notin> set (new_events w line)"
      using 1 by (auto simp: new_events_found)
    then have "filter (\<lambda>ev. ev = Fallback) (new_events w line) = []"
      by (auto simp: filter_empty_conv)
    then show ?thesis by simp
  next
    case False
    have "filter (\<lambda>ev. ev = Fallback) (events (first_pass w line)) = []"
      "filter (\<lambda>ev. ev = Fallback)
         (complaint (user_list_of line) (logged_exceptions (first_pass w line))) = []"
      "filter (\<lambda>ev. ev = Fallback) (events (first_pass (fallback_world w line) ''help'')) = []"
      by (auto simp: filter_empty_conv)
    with False show ?thesis
      by (simp add: new_events_falls_back)
  qed
  show ?thesis
    using 1 2 by (simp add: new_events_in_fallback new_events_falls_back help_search_resolve)
qed

theorem help_fallback_one_level_witness:
  "new_events lonely ''baz'' =
     [Print (''Unknown command baz.'' @ newline), Print newline, Fallback, no_help_found] \<and>
   \<not> help_search (resolve lonely ''baz'')"
proof -
  have h: "\<not> help_search lonely \<and> \<not> found (first_pass lonely ''baz'')"
    by code_simp
  have e: "events (first_pass lonely ''baz'') @
        complaint (user_list_of ''baz'') (logged_exceptions (first_pass lonely ''baz'')) @
        [Fallback] @
        events (first_pass (fallback_world lonely ''baz'') ''help'') @
        (if found (first_pass (fallback_world lonely ''baz'') ''help'') then []
         else [no_help_found]) =
      [Print (''Unknown command baz.'' @ newline), Print newline, Fallback, no_help_found]"
    by code_simp
  show ?thesis
    using h help_fallback_one_level [of lonely "''baz''"] unfolding e by simp
qed

section \<open>The command that runs\<close>


text \<open>
  Claim C1, as amended. If dispatch succeeds, that is if the loop of \<^verbatim>\<open>resolve\<close>
  finds a wrapper that returns \<^verbatim>\<open>True\<close>, then the last event is the call of a
  handler that returned, and it is the only such call; that handler belongs to a
  candidate, every candidate before it in the list has raised an exception (so it is
  the first command, in declaration order, whose call returns \<^verbatim>\<open>True\<close>), every
  handler called before belongs to an earlier command and raised an exception, and
  the wrappers behind it are not called.
\<close>

theorem first_successful_command_runs:
  assumes "found (first_pass w line)"
  shows "\<exists>i xs evs. i < length (command_list w) \<and>
     new_events w line = evs @ [Invoke i xs Returned] \<and>
     (\<forall>ev \<in> set evs. \<exists>j ys e. ev = Invoke j ys (HandlerRaised e) \<and> j < i) \<and>
     candidate (command_list w ! i) (hd (user_list_of line)) \<and>
     length (logged_exceptions (first_pass w line)) =
       length (filter (\<lambda>c. candidate c (hd (user_list_of line))) (take i (command_list w))) \<and>
     drop (Suc i) (command_list (resolve w line)) = drop (Suc i) (command_list w)"
proof -
  from try_commands_found [OF assms [unfolded first_pass_def]] obtain k xs evs where
    k: "k < length (command_list w)"
      "events (first_pass w line) = evs @ [Invoke (0 + k) xs Returned]"
      "\<forall>ev \<in> set evs. \<exists>j ys e. ev = Invoke j ys (HandlerRaised e) \<and> 0 \<le> j \<and> j < 0 + k"
      "candidate (command_list w ! k) (hd (user_list_of line))"
      "length (logged_exceptions (first_pass w line)) =
         length (filter (\<lambda>c. candidate c (hd (user_list_of line))) (take k (command_list w)))"
      "drop (Suc k) (wrappers_after (first_pass w line)) = drop (Suc k) (command_list w)"
    unfolding first_pass_def by blast
  have "k < length (command_list w) \<and>
     new_events w line = evs @ [Invoke k xs Returned] \<and>
     (\<forall>ev \<in> set evs. \<exists>j ys e. ev = Invoke j ys (HandlerRaised e) \<and> j < k) \<and>
     candidate (command_list w ! k) (hd (user_list_of line)) \<and>
     length (logged_exceptions (first_pass w line)) =
       length (filter (\<lambda>c. candidate c (hd (user_list_of line))) (take k (command_list w))) \<and>
     drop (Suc k) (command_list (resolve w line)) = drop (Suc k) (command_list w)"
    using k assms by (simp add: new_events_found resolve_found)
  then show ?thesis by blast
qed

text \<open>
  The claim C1 as it was stated fails: on the input \<^verbatim>\<open>set a\<close> the first command,
  \<^verbatim>\<open>set <k> <v>\<close>, accepts the first token and raises for the missing argument; the
  handler that runs is the one of the second command.
\<close>

theorem later_candidate_runs:
  "found (first_pass two_sets ''set a'') \<and>
   candidate (command_list two_sets ! 0) (hd (user_list_of ''set a'')) \<and>
   new_events two_sets ''set a'' = [Invoke 1 [Argument ''a'' (Some ''k'')] Returned]"
  by code_simp


theorem first_successful_command_runs_witness:
  "\<exists>i xs evs. i < length (command_list two_sets) \<and>
     new_events two_sets ''set a'' = evs @ [Invoke i xs Returned] \<and>
     (\<forall>ev \<in> set evs. \<exists>j ys e. ev = Invoke j ys (HandlerRaised e) \<and> j < i) \<and>
     candidate (command_list two_sets ! i) (hd (user_list_of ''set a'')) \<and>
     length (logged_exceptions (first_pass two_sets ''set a'')) =
       length (filter (\<lambda>c. candidate c (hd (user_list_of ''set a'')))
         (take i (command_list two_sets))) \<and>
     drop (Suc i) (command_list (resolve two_sets ''set a'')) =
       drop (Suc i) (command_list two_sets)"
proof -
  have f: "found (first_pass two_sets ''set a'')"
    by code_simp
  show ?thesis
    by (rule first_successful_command_runs [OF f])
qed

section \<open>The empty syntax\<close>












end
